theory Spec2Isabelle
  imports Main "HOL-Library.Word" "HOL-Library.AList" "HOL-Library.Sublist"
begin

section \<open>Data of the review libraries\<close>

text \<open>
  The comment and review types come from the git-appraise library that the mirror imports
  (\<open>comment.Comment\<close>, \<open>comment.Location\<close>, \<open>comment.Range\<close>, \<open>review.CommentThread\<close>,
  \<open>request.Request\<close>, \<open>ci.Report\<close>). Only the fields that the mirror reads are kept.
  A Go pointer field that may be nil is an option. Go strings are byte strings, and so are
  HOL strings: \<open>length\<close> is Go's \<open>len\<close>.
\<close>

record Range =
  StartLine :: "32 word"

record Location =
  Commit :: string
  Path :: string
  Range :: "Range option"

record Comment =
  Timestamp :: string
  Author :: string
  Location :: "Location option"
  Description :: string
  Resolved :: "bool option"

datatype CommentThread =
  CommentThread (Hash: string) (Comment: Comment) (Children: "CommentThread list")

record Request =
  ReviewRef :: string
  TargetRef :: string
  Requester :: string
  req_Reviewers :: "string list"
  req_Description :: string

record Report =
  report_Timestamp :: string
  URL :: string
  report_Status :: string
  Agent :: string

text \<open>
  A note of a static analysis report (\<open>analyses.Note\<close>): its location, when present, is a
  path and an optional range, of which only the start line is read.
\<close>

record LintNote =
  note_Location :: "(string \<times> int option) option"
  Category :: string
  note_Description :: string

type_synonym AnalyzeResponse = "LintNote list"

section \<open>Constants and records of the arcanist package\<close>

definition commitHashType :: string where
  "commitHashType = ''gtcm''"

definition differentialTitleLengthLimit :: nat where
  "differentialTitleLengthLimit = 256"

definition differentialNeedsReviewStatus :: string where
  "differentialNeedsReviewStatus = ''0''"

definition differentialClosedStatus :: string where
  "differentialClosedStatus = ''3''"

definition differentialAbandonedStatus :: string where
  "differentialAbandonedStatus = ''4''"

definition unitDiffPropertyName :: string where
  "unitDiffPropertyName = ''arc:unit''"

definition lintDiffPropertyName :: string where
  "lintDiffPropertyName = ''arc:lint''"

record DifferentialReview =
  ID :: string
  PHID :: string
  Title :: string
  Branch :: string
  Status :: string
  StatusName :: string
  AuthorPHID :: string
  Reviewers :: "string list"
  Hashes :: "string list list"
  Diffs :: "string list"

record revisionFields =
  rf_Title :: string
  rf_Summary :: string
  rf_Reviewers :: "string list"
  rf_CCs :: "string list"

record createCommentRequest =
  cc_RevisionID :: string
  cc_Message :: string
  cc_Action :: string
  cc_AttachInlines :: bool

record createInlineRequest =
  ci_RevisionID :: string
  ci_DiffID :: string
  ci_FilePath :: string
  ci_LineNumber :: "32 word"
  ci_Content :: string
  ci_IsNewFile :: "32 word"

record differentialUnitDiffProperty =
  unit_Name :: string
  unit_Link :: string
  unit_Result :: string

record LintDiffProperty =
  lint_Code :: string
  lint_Severity :: string
  lint_Path :: string
  lint_Line :: int
  lint_Description :: string

section \<open>Library functions of Go that the code calls\<close>

text \<open>
  \<open>strings.Split s sep\<close> for a separator of one byte: the pieces of \<open>s\<close> between the
  separators, at least one piece (the empty string gives one empty piece).
\<close>

fun Split :: "string \<Rightarrow> char \<Rightarrow> string list" where
  "Split [] sep = [[]]"
| "Split (c # cs) sep =
     (if c = sep then [] # Split cs sep
      else (case Split cs sep of [] \<Rightarrow> [[c]] | p # ps \<Rightarrow> (c # p) # ps))"

definition newline :: char where
  "newline = CHR 0x0A"

text \<open>
  \<open>strconv.Atoi\<close> on a platform whose \<open>int\<close> has 64 bits: an optional sign, then one or
  more decimal digits, and the value must fit; anything else is an error (\<open>None\<close>).
\<close>

definition digitVal :: "char \<Rightarrow> nat option" where
  "digitVal c =
     (let n = (of_char c :: nat) in if 48 \<le> n \<and> n \<le> 57 then Some (n - 48) else None)"

fun parseDigits :: "string \<Rightarrow> nat \<Rightarrow> nat option" where
  "parseDigits [] acc = Some acc"
| "parseDigits (c # cs) acc =
     (case digitVal c of None \<Rightarrow> None | Some d \<Rightarrow> parseDigits cs (10 * acc + d))"

definition Atoi :: "string \<Rightarrow> int option" where
  "Atoi s =
     (let (neg, ds) =
            (case s of
               [] \<Rightarrow> (False, s)
             | c # cs \<Rightarrow>
                 if c = CHR ''-'' then (True, cs)
                 else if c = CHR ''+'' then (False, cs) else (False, s))
      in if ds = [] then None
         else (case parseDigits ds 0 of
                 None \<Rightarrow> None
               | Some n \<Rightarrow>
                   (let v = (if neg then - int n else int n)
                    in if - (2 ^ 63) \<le> v \<and> v < 2 ^ 63 then Some v else None)))"

text \<open>\<open>strconv.Itoa\<close>: the decimal digits of an integer, with a minus sign when negative.\<close>

fun decimal :: "nat \<Rightarrow> string" where
  "decimal n =
     (if n < 10 then [char_of (48 + n)]
      else decimal (n div 10) @ [char_of (48 + n mod 10)])"

definition Itoa :: "int \<Rightarrow> string" where
  "Itoa i = (if i < 0 then CHR ''-'' # decimal (nat (- i)) else decimal (nat i))"

section \<open>The comment predicates of the mirror's review package\<close>

text \<open>
  Modelled from the spec: \<open>Overlaps\<close> of \<open>mirror/review\<close> is not among the sources (only its
  test is). The spec: two comments overlap if they share the same timestamp token, and their
  resolved flags are both absent or both present with equal value, and either one comment's
  description is the quotation of the other's description or the raw descriptions are equal.
  The quotation format is left open by the spec, so the quoting function \<open>quote\<close>
  (\<open>QuoteDescription\<close>) is a parameter.
\<close>

definition sameResolved :: "bool option \<Rightarrow> bool option \<Rightarrow> bool" where
  "sameResolved ra rb =
     (case (ra, rb) of
        (None, None) \<Rightarrow> True
      | (Some x, Some y) \<Rightarrow> x = y
      | _ \<Rightarrow> False)"

definition Overlaps :: "(Comment \<Rightarrow> string) \<Rightarrow> Comment \<Rightarrow> Comment \<Rightarrow> bool" where
  "Overlaps quote a b =
     (Timestamp a = Timestamp b
      \<and> sameResolved (Resolved a) (Resolved b)
      \<and> (Description a = quote b \<or> Description b = quote a
         \<or> Description a = Description b))"

text \<open>\<open>overlapsAny\<close> of the arcanist package: the loop returns at the first overlap.\<close>

fun overlapsAny :: "(Comment \<Rightarrow> string) \<Rightarrow> Comment \<Rightarrow> Comment list \<Rightarrow> bool" where
  "overlapsAny quote c [] = False"
| "overlapsAny quote c (existing # rest) =
     (if Overlaps quote c existing then True else overlapsAny quote c rest)"

text \<open>
  Modelled from the spec: \<open>FilterOverlapping\<close> of \<open>mirror/review\<close> is not among the sources.
  The spec: it walks each comment thread, and recursively its children, and returns the flat
  ordered sequence of the comments that do not overlap any comment in \<open>existing\<close>, parent
  before children, children in their original order.
\<close>

fun filterThread :: "(Comment \<Rightarrow> string) \<Rightarrow> Comment list \<Rightarrow> CommentThread \<Rightarrow> Comment list" where
  "filterThread quote existing (CommentThread h c children) =
     (if overlapsAny quote c existing then [] else [c])
     @ concat (map (filterThread quote existing) children)"

definition FilterOverlapping ::
  "(Comment \<Rightarrow> string) \<Rightarrow> CommentThread list \<Rightarrow> Comment list \<Rightarrow> Comment list" where
  "FilterOverlapping quote threads existing = concat (map (filterThread quote existing) threads)"

text \<open>The comments of a thread in traversal order: parent first, then each child's thread.\<close>

fun flatten :: "CommentThread \<Rightarrow> Comment list" where
  "flatten (CommentThread h c children) = c # concat (map flatten children)"

text \<open>A comment on its own is a thread without replies.\<close>

definition asThread :: "Comment \<Rightarrow> CommentThread" where
  "asThread c = CommentThread [] c []"

section \<open>Pure parts of the arcanist package\<close>

definition isClosed :: "DifferentialReview \<Rightarrow> bool" where
  "isClosed differentialReview =
     (Status differentialReview = differentialClosedStatus
      \<or> Status differentialReview = differentialAbandonedStatus)"

text \<open>
  The first statements of \<open>createDifferentialRevision\<close>: the title is the first line of the
  description, cut when it is longer than the limit, and the summary is the description
  when the title differs from it. Indexing the result of \<open>strings.Split\<close> at 0 panics in Go
  when there is no piece: \<open>None\<close>.
\<close>

definition titleAndSummary :: "string \<Rightarrow> revisionFields option" where
  "titleAndSummary description =
     (case Split description newline of
        [] \<Rightarrow> None
      | first # _ \<Rightarrow>
          (let title =
                 (if length first > differentialTitleLengthLimit
                  then (let truncatedLimit = differentialTitleLengthLimit - 4
                        in take truncatedLimit first @ ''...'')
                  else first)
           in Some \<lparr> rf_Title = title,
                     rf_Summary = (if title \<noteq> description then description else []),
                     rf_Reviewers = [], rf_CCs = [] \<rparr>))"

text \<open>A Go map read gives the zero value, the empty string, for a key that is not there.\<close>

definition lookupDiff :: "(string \<times> string) list \<Rightarrow> string \<Rightarrow> string" where
  "lookupDiff commitToDiffMap commit =
     (case map_of commitToDiffMap commit of None \<Rightarrow> [] | Some diffID \<Rightarrow> diffID)"

fun buildCommentRequestsForThread ::
  "(Comment \<Rightarrow> string) \<Rightarrow> DifferentialReview \<Rightarrow> Comment list \<Rightarrow> CommentThread \<Rightarrow> string
     \<Rightarrow> string \<Rightarrow> 32 word \<Rightarrow> createInlineRequest list" where
  "buildCommentRequestsForThread quote differentialReview existingComments
       (CommentThread h c children) diffID path lineNumber =
     (if \<not> overlapsAny quote c existingComments
      then [\<lparr> ci_RevisionID = ID differentialReview, ci_DiffID = diffID, ci_FilePath = path,
              ci_LineNumber = lineNumber, ci_Content = quote c, ci_IsNewFile = 1 \<rparr>]
      else [])
     @ concat (map (\<lambda>child. buildCommentRequestsForThread quote differentialReview
                      existingComments child diffID path lineNumber) children)"

text \<open>The inline requests that one top-level thread adds in the loop of \<open>buildCommentRequests\<close>.\<close>

definition inlineRequestsFor ::
  "(Comment \<Rightarrow> string) \<Rightarrow> DifferentialReview \<Rightarrow> Comment list \<Rightarrow> (string \<times> string) list
     \<Rightarrow> CommentThread \<Rightarrow> createInlineRequest list" where
  "inlineRequestsFor quote differentialReview existingComments commitToDiffMap c =
     (case Location (Comment c) of
        None \<Rightarrow> []
      | Some loc \<Rightarrow>
          if Path loc \<noteq> [] then
            (let lineNumber = (case Range loc of None \<Rightarrow> 1 | Some r \<Rightarrow> StartLine r);
                 diffID = lookupDiff commitToDiffMap (Commit loc)
             in if diffID \<noteq> []
                then buildCommentRequestsForThread quote differentialReview existingComments c
                       diffID (Path loc) lineNumber
                else [])
          else [])"

definition buildCommentRequests ::
  "(Comment \<Rightarrow> string) \<Rightarrow> DifferentialReview \<Rightarrow> CommentThread list \<Rightarrow> Comment list
     \<Rightarrow> (string \<times> string) list \<Rightarrow> createInlineRequest list \<times> createCommentRequest list" where
  "buildCommentRequests quote differentialReview commentThreads existingComments commitToDiffMap =
     (let inlineRequests =
            concat (map (inlineRequestsFor quote differentialReview existingComments
                           commitToDiffMap) commentThreads);
          commentRequests =
            (if length inlineRequests > 0
             then [\<lparr> cc_RevisionID = ID differentialReview, cc_Message = [],
                     cc_Action = ''comment'', cc_AttachInlines = True \<rparr>]
             else [])
      in (inlineRequests, commentRequests))"

definition translateReportStatusToDifferentialUnitResult :: "string \<Rightarrow> string" where
  "translateReportStatusToDifferentialUnitResult status =
     (if status = ''success'' then ''pass''
      else if status = ''failure'' then ''fail''
      else ''skip'')"

text \<open>
  \<open>json.Marshal\<close> is Go's library: the encoder is a parameter that gives the text or an
  error.
\<close>

definition generateUnitDiffProperty ::
  "(differentialUnitDiffProperty list \<Rightarrow> string + string) \<Rightarrow> Report \<Rightarrow> string + string" where
  "generateUnitDiffProperty marshal report =
     (if URL report = [] then Inr []
      else (let unitDiffProperty =
                  \<lparr> unit_Name = Agent report, unit_Link = URL report,
                    unit_Result = translateReportStatusToDifferentialUnitResult (report_Status report) \<rparr>
            in (case marshal [unitDiffProperty] of
                  Inl err \<Rightarrow> Inl err
                | Inr propertyBytes \<Rightarrow> Inr propertyBytes)))"

definition lintPropertiesOf :: "LintNote \<Rightarrow> LintDiffProperty list" where
  "lintPropertiesOf note =
     (case note_Location note of
        None \<Rightarrow> []
      | Some (path, None) \<Rightarrow> []
      | Some (path, Some startLine) \<Rightarrow>
          [\<lparr> lint_Code = Category note, lint_Severity = ''warning'', lint_Path = path,
             lint_Line = startLine, lint_Description = note_Description note \<rparr>])"

definition generateLintDiffProperty ::
  "(LintDiffProperty list \<Rightarrow> string + string) \<Rightarrow> AnalyzeResponse list \<Rightarrow> string + string" where
  "generateLintDiffProperty marshal lintResults =
     (let lintDiffProperties = concat (map (\<lambda>analyzeResponse.
            concat (map lintPropertiesOf analyzeResponse)) lintResults)
      in if lintDiffProperties = [] then Inr [] else marshal lintDiffProperties)"

section \<open>Remote calls, the process state and panics\<close>

text \<open>
  Every request that the code sends to the remote review tool is a \<open>call\<close>. The first six
  are the conduit methods that the sources name in \<open>runArcCommandOrDie\<close>. The last five
  stand for the helpers of the arcanist package that are not among the sources
  (\<open>createDifferentialDiff\<close>, \<open>readDiff\<close> with \<open>findLastCommit\<close>, \<open>setDiffProperty\<close>,
  \<open>LoadComments\<close>, \<open>queryUser\<close>): the code under study only sees their arguments and results.
\<close>

datatype call =
    DifferentialQuery "string list list" string
  | DifferentialClose int
  | DifferentialCreateRevision int revisionFields
  | DifferentialUpdateRevision string string
  | DifferentialCreateInline createInlineRequest
  | DifferentialCreateComment createCommentRequest
  | CreateDifferentialDiff string string "string list"
  | ReadDiff int
  | SetDiffProperty int string string
  | LoadComments string
  | QueryUser string

text \<open>
  What comes back: \<open>Died\<close> is every failure inside \<open>runArcCommandOrDie\<close> (the command does
  not start, fails, is killed at the timeout, or its output does not parse), which panics.
  \<open>ErrorResponse\<close> carries the fields \<open>Error\<close> and \<open>ErrorMessage\<close> of the responses to
  close, update, inline, comment and create-revision requests (the revision in the last
  one is only logged by the caller and is left out). For the helpers that are not among the sources the response is the
  helper's result: an error or the identifier of the new diff (or nil), an error or the
  last commit of a diff, an error or nil, the comments, an error or the user's PHID (or nil).
\<close>

datatype response =
    Died string
  | QueryResponse "DifferentialReview list"
  | ErrorResponse string string
  | DiffResponse "string + int option"
  | LastCommitResponse "string + string"
  | PropertyResponse "string option"
  | CommentsResponse "Comment list"
  | UserResponse "string + string option"

text \<open>
  The remote tool and Go's library as the code meets them: the answer to a call may depend
  on all the calls made before it; \<open>QuoteDescription\<close> is the quoting function of
  \<open>mirror/review\<close>; the two encoders are \<open>json.Marshal\<close> at its two uses.
\<close>

record world =
  respond :: "call list \<Rightarrow> call \<Rightarrow> response"
  QuoteDescription :: "Comment \<Rightarrow> string"
  marshalUnit :: "differentialUnitDiffProperty list \<Rightarrow> string + string"
  marshalLint :: "LintDiffProperty list \<Rightarrow> string + string"

text \<open>
  The local repository as the code reads it: \<open>MergeBase\<close>, and for a commit the latest valid
  continuous integration report and the lint results of the latest valid analysis report
  (\<open>GetNotes\<close>, \<open>ParseAllValid\<close>, \<open>GetLatestCIReport\<close>; \<open>GetLatestAnalysesReport\<close>,
  \<open>GetLintReportResult\<close>), each with its error.
\<close>

record Repo =
  MergeBase :: "string \<Rightarrow> string \<Rightarrow> string + string"
  LatestCIReport :: "string \<Rightarrow> string + Report option"
  LatestAnalysesReport :: "string \<Rightarrow> string + (string + AnalyzeResponse list) option"

text \<open>A local review, with the results of its methods \<open>GetBaseCommit\<close> and \<open>GetHeadCommit\<close>.\<close>

record Review =
  Revision :: string
  Request :: Request
  Comments :: "CommentThread list"
  Submitted :: bool
  GetBaseCommit :: "string + string"
  GetHeadCommit :: "string + string"

text \<open>
  The state of the process: the package variable \<open>closedRevisionsMap\<close> and the calls sent so
  far, oldest first.
\<close>

record pstate =
  closedRevisionsMap :: "string \<Rightarrow> bool"
  conduit :: "call list"

text \<open>A run either panics (\<open>Inl\<close>, with the state reached) or returns a value.\<close>

type_synonym 'a run = "pstate \<Rightarrow> (string + 'a) \<times> pstate"

definition ret :: "'a \<Rightarrow> 'a run" where
  "ret x st = (Inr x, st)"

definition panic :: "string \<Rightarrow> 'a run" where
  "panic msg st = (Inl msg, st)"

definition andThen :: "'a run \<Rightarrow> ('a \<Rightarrow> 'b run) \<Rightarrow> 'b run" where
  "andThen m f st = (case m st of (Inl msg, st') \<Rightarrow> (Inl msg, st') | (Inr x, st') \<Rightarrow> f x st')"

fun forEach :: "'a list \<Rightarrow> ('a \<Rightarrow> unit run) \<Rightarrow> unit run" where
  "forEach [] body = ret ()"
| "forEach (x # xs) body = andThen (body x) (\<lambda>_. forEach xs body)"

definition runArcCommandOrDie :: "world \<Rightarrow> call \<Rightarrow> response run" where
  "runArcCommandOrDie w c st =
     (let st' = st\<lparr>conduit := conduit st @ [c]\<rparr>
      in (case respond w (conduit st) c of
            Died msg \<Rightarrow> (Inl msg, st')
          | r \<Rightarrow> (Inr r, st')))"

text \<open>A response of another shape than the one awaited does not parse: a panic.\<close>

definition malformed :: string where
  "malformed = ''malformed response''"

section \<open>The effectful functions of the arcanist package\<close>

definition listDifferentialReviewsOrDie :: "world \<Rightarrow> string \<Rightarrow> DifferentialReview list run" where
  "listDifferentialReviewsOrDie w revision =
     andThen (runArcCommandOrDie w (DifferentialQuery [[commitHashType, revision]] []))
       (\<lambda>r. case r of QueryResponse reviews \<Rightarrow> ret reviews | _ \<Rightarrow> panic malformed)"

definition close :: "world \<Rightarrow> DifferentialReview \<Rightarrow> unit run" where
  "close w differentialReview =
     (case Atoi (ID differentialReview) of
        None \<Rightarrow> panic ''strconv.Atoi''
      | Some reviewID \<Rightarrow>
          andThen (runArcCommandOrDie w (DifferentialClose reviewID))
            (\<lambda>r. case r of ErrorResponse err msg \<Rightarrow> ret () | _ \<Rightarrow> panic malformed))"

definition queryUser :: "world \<Rightarrow> string \<Rightarrow> (string + string option) run" where
  "queryUser w name =
     andThen (runArcCommandOrDie w (QueryUser name))
       (\<lambda>r. case r of UserResponse u \<Rightarrow> ret u | _ \<Rightarrow> panic malformed)"

definition createDifferentialDiff ::
  "world \<Rightarrow> string \<Rightarrow> string \<Rightarrow> string list \<Rightarrow> (string + int option) run" where
  "createDifferentialDiff w base head priorDiffs =
     andThen (runArcCommandOrDie w (CreateDifferentialDiff base head priorDiffs))
       (\<lambda>r. case r of DiffResponse d \<Rightarrow> ret d | _ \<Rightarrow> panic malformed)"

definition setDiffProperty :: "world \<Rightarrow> int \<Rightarrow> string \<Rightarrow> string \<Rightarrow> string option run" where
  "setDiffProperty w diffID name data =
     andThen (runArcCommandOrDie w (SetDiffProperty diffID name data))
       (\<lambda>r. case r of PropertyResponse err \<Rightarrow> ret err | _ \<Rightarrow> panic malformed)"

definition LoadCommentsOf :: "world \<Rightarrow> DifferentialReview \<Rightarrow> Comment list run" where
  "LoadCommentsOf w differentialReview =
     andThen (runArcCommandOrDie w (LoadComments (ID differentialReview)))
       (\<lambda>r. case r of CommentsResponse cs \<Rightarrow> ret cs | _ \<Rightarrow> panic malformed)"

definition findCommitForDiff :: "world \<Rightarrow> string \<Rightarrow> string run" where
  "findCommitForDiff w diffIDString =
     (case Atoi diffIDString of
        None \<Rightarrow> ret []
      | Some diffID \<Rightarrow>
          andThen (runArcCommandOrDie w (ReadDiff diffID))
            (\<lambda>r. case r of
                    LastCommitResponse (Inl err) \<Rightarrow> ret []
                  | LastCommitResponse (Inr lastCommit) \<Rightarrow> ret lastCommit
                  | _ \<Rightarrow> panic malformed))"

text \<open>
  The loops over the reviewers and the requester in \<open>createDifferentialRevision\<close>: a user
  that does not resolve (an error or nil) is skipped.
\<close>

fun resolveUsers :: "world \<Rightarrow> string list \<Rightarrow> string list \<Rightarrow> string list run" where
  "resolveUsers w [] acc = ret acc"
| "resolveUsers w (name # names) acc =
     andThen (queryUser w name)
       (\<lambda>u. case u of
               Inl err \<Rightarrow> resolveUsers w names acc
             | Inr None \<Rightarrow> resolveUsers w names acc
             | Inr (Some phid) \<Rightarrow> resolveUsers w names (acc @ [phid]))"

definition createDifferentialRevision ::
  "world \<Rightarrow> string \<Rightarrow> int \<Rightarrow> Request \<Rightarrow> (string + unit) run" where
  "createDifferentialRevision w revision diffID req =
     (case titleAndSummary (req_Description req) of
        None \<Rightarrow> panic ''index out of range''
      | Some revFields \<Rightarrow>
          andThen (resolveUsers w (req_Reviewers req) (rf_Reviewers revFields))
            (\<lambda>reviewers.
               andThen (if Requester req \<noteq> [] then resolveUsers w [Requester req] (rf_CCs revFields)
                        else ret (rf_CCs revFields))
                 (\<lambda>ccs.
                    andThen (runArcCommandOrDie w
                               (DifferentialCreateRevision diffID
                                  (revFields\<lparr>rf_Reviewers := reviewers, rf_CCs := ccs\<rparr>)))
                      (\<lambda>r. case r of
                              ErrorResponse err msg \<Rightarrow>
                                if err \<noteq> []
                                then ret (Inl (''Failed to create the differential revision: '' @ msg))
                                else ret (Inr ())
                            | _ \<Rightarrow> panic malformed))))"

definition reportUnitResults :: "world \<Rightarrow> int \<Rightarrow> Report \<Rightarrow> unit run" where
  "reportUnitResults w diffID unitReport =
     (case generateUnitDiffProperty (marshalUnit w) unitReport of
        Inl err \<Rightarrow> panic err
      | Inr diffProperty \<Rightarrow>
          if diffProperty \<noteq> [] then
            andThen (setDiffProperty w diffID unitDiffPropertyName diffProperty)
              (\<lambda>err. case err of Some msg \<Rightarrow> panic msg | None \<Rightarrow> ret ())
          else ret ())"

definition reportLintResults :: "world \<Rightarrow> int \<Rightarrow> AnalyzeResponse list \<Rightarrow> unit run" where
  "reportLintResults w diffID lintResults =
     (case generateLintDiffProperty (marshalLint w) lintResults of
        Inl err \<Rightarrow> panic err
      | Inr diffProperty \<Rightarrow>
          if diffProperty \<noteq> [] then
            andThen (setDiffProperty w diffID lintDiffPropertyName diffProperty)
              (\<lambda>err. case err of Some msg \<Rightarrow> panic msg | None \<Rightarrow> ret ())
          else ret ())"

text \<open>
  Go visits the entries of a map in an order that it does not specify. The maps from commits
  to diffs are association lists (an update keeps the place of the key), and the loop visits
  the entries in the order of the list.
\<close>

definition mirrorStatusesForEachCommit :: "world \<Rightarrow> Repo \<Rightarrow> (string \<times> int) list \<Rightarrow> unit run" where
  "mirrorStatusesForEachCommit w repo commitToDiffIDMap =
     forEach commitToDiffIDMap
       (\<lambda>(commitHash, diffID).
          andThen
            (case LatestCIReport repo commitHash of
               Inl err \<Rightarrow> ret ()
             | Inr None \<Rightarrow> ret ()
             | Inr (Some latestCIReport) \<Rightarrow> reportUnitResults w diffID latestCIReport)
            (\<lambda>_. case LatestAnalysesReport repo commitHash of
                    Inl err \<Rightarrow> ret ()
                  | Inr None \<Rightarrow> ret ()
                  | Inr (Some (Inl err)) \<Rightarrow> ret ()
                  | Inr (Some (Inr lintResults)) \<Rightarrow> reportLintResults w diffID lintResults))"

fun commitMaps ::
  "world \<Rightarrow> string list \<Rightarrow> (string \<times> string) list \<Rightarrow> (string \<times> int) list
     \<Rightarrow> ((string \<times> string) list \<times> (string \<times> int) list) run" where
  "commitMaps w [] commitToDiffMap commitToDiffIDMap = ret (commitToDiffMap, commitToDiffIDMap)"
| "commitMaps w (diffIDString # rest) commitToDiffMap commitToDiffIDMap =
     andThen (findCommitForDiff w diffIDString)
       (\<lambda>lastCommit.
          commitMaps w rest (AList.update lastCommit diffIDString commitToDiffMap)
            (case Atoi diffIDString of
               Some diffID \<Rightarrow> AList.update lastCommit diffID commitToDiffIDMap
             | None \<Rightarrow> commitToDiffIDMap))"

definition mirrorCommentsIntoReview ::
  "world \<Rightarrow> Repo \<Rightarrow> DifferentialReview \<Rightarrow> Review \<Rightarrow> unit run" where
  "mirrorCommentsIntoReview w repo differentialReview r =
     andThen (commitMaps w (Diffs differentialReview) [] [])
       (\<lambda>(commitToDiffMap, commitToDiffIDMap).
          andThen (mirrorStatusesForEachCommit w repo commitToDiffIDMap)
            (\<lambda>_. andThen (LoadCommentsOf w differentialReview)
               (\<lambda>existingComments.
                  (case buildCommentRequests (QuoteDescription w) differentialReview (Comments r)
                          existingComments commitToDiffMap of
                     (inlineRequests, commentRequests) \<Rightarrow>
                       andThen
                         (forEach inlineRequests
                            (\<lambda>request.
                               andThen (runArcCommandOrDie w (DifferentialCreateInline request))
                                 (\<lambda>r. case r of ErrorResponse err msg \<Rightarrow> ret ()
                                       | _ \<Rightarrow> panic malformed)))
                         (\<lambda>_. forEach commentRequests
                            (\<lambda>request.
                               andThen (runArcCommandOrDie w (DifferentialCreateComment request))
                                 (\<lambda>r. case r of ErrorResponse err msg \<Rightarrow> ret ()
                                       | _ \<Rightarrow> panic malformed)))))))"

definition hasHeadHash :: "string list list \<Rightarrow> string \<Rightarrow> bool" where
  "hasHeadHash hashes headCommit =
     list_ex (\<lambda>hashPair. length hashPair = 2 \<and> hashPair ! 0 = commitHashType
                \<and> hashPair ! 1 = headCommit) hashes"

definition updateReviewDiffs ::
  "world \<Rightarrow> Repo \<Rightarrow> DifferentialReview \<Rightarrow> string \<Rightarrow> Request \<Rightarrow> Review \<Rightarrow> unit run" where
  "updateReviewDiffs w repo differentialReview headCommit req r =
     (if isClosed differentialReview then ret ()
      else (case MergeBase repo (TargetRef req) headCommit of
              Inl err \<Rightarrow> panic err
            | Inr mergeBase \<Rightarrow>
                if hasHeadHash (Hashes differentialReview) headCommit
                then mirrorCommentsIntoReview w repo differentialReview r
                else andThen (createDifferentialDiff w mergeBase headCommit
                                (Diffs differentialReview))
                       (\<lambda>d. case d of
                               Inl err \<Rightarrow> panic err
                             | Inr None \<Rightarrow> ret ()
                             | Inr (Some diffID) \<Rightarrow>
                                 andThen (runArcCommandOrDie w
                                            (DifferentialUpdateRevision (ID differentialReview)
                                               (Itoa diffID)))
                                   (\<lambda>r. case r of
                                           ErrorResponse err msg \<Rightarrow>
                                             if err \<noteq> [] then panic msg else ret ()
                                         | _ \<Rightarrow> panic malformed))))"

definition markClosed :: "string \<Rightarrow> unit run" where
  "markClosed revision st =
     (Inr (), st\<lparr>closedRevisionsMap := (closedRevisionsMap st)(revision := True)\<rparr>)"

definition EnsureRequestExists :: "world \<Rightarrow> Repo \<Rightarrow> Review \<Rightarrow> unit run" where
  "EnsureRequestExists w repo review st =
     (let revision = Revision review; req = Request review
      in if closedRevisionsMap st revision then ret () st
         else andThen (listDifferentialReviewsOrDie w revision)
           (\<lambda>existingReviews.
              if Submitted review then
                andThen (forEach existingReviews
                           (\<lambda>differentialReview.
                              if \<not> isClosed differentialReview then close w differentialReview
                              else ret ()))
                  (\<lambda>_. markClosed revision)
              else (case GetBaseCommit review of
                      Inl err \<Rightarrow> ret ()
                    | Inr base \<Rightarrow>
                       (case GetHeadCommit review of
                          Inl err \<Rightarrow> ret ()
                        | Inr head \<Rightarrow>
                            if length existingReviews > 0 then
                              forEach existingReviews
                                (\<lambda>existing. updateReviewDiffs w repo existing head req review)
                            else
                              andThen (createDifferentialDiff w base revision [])
                                (\<lambda>d. case d of
                                        Inl err \<Rightarrow> panic err
                                      | Inr None \<Rightarrow> ret ()
                                      | Inr (Some diffID) \<Rightarrow>
                                          andThen (createDifferentialRevision w revision diffID req)
                                            (\<lambda>rev. case rev of
                                                Inl err \<Rightarrow> panic err
                                              | Inr _ \<Rightarrow>
                                                  andThen (listDifferentialReviewsOrDie w revision)
                                                    (\<lambda>existingReviews'.
                                                       forEach existingReviews'
                                                         (\<lambda>existing. updateReviewDiffs w repo
                                                            existing head req review))))))) st)"

text \<open>
  The part of \<open>EnsureRequestExists\<close> that handles a review that is not submitted, once the
  existing revisions are known, written out on its own so that lemmas can name it.
\<close>

definition pendingReviewBranch ::
  "world \<Rightarrow> Repo \<Rightarrow> Review \<Rightarrow> DifferentialReview list \<Rightarrow> unit run" where
  "pendingReviewBranch w repo review existingReviews =
     (case GetBaseCommit review of
        Inl err \<Rightarrow> ret ()
      | Inr base \<Rightarrow>
         (case GetHeadCommit review of
            Inl err \<Rightarrow> ret ()
          | Inr head \<Rightarrow>
              if length existingReviews > 0 then
                forEach existingReviews
                  (\<lambda>existing. updateReviewDiffs w repo existing head (Request review) review)
              else
                andThen (createDifferentialDiff w base (Revision review) [])
                  (\<lambda>d. case d of
                          Inl err \<Rightarrow> panic err
                        | Inr None \<Rightarrow> ret ()
                        | Inr (Some diffID) \<Rightarrow>
                            andThen (createDifferentialRevision w (Revision review) diffID
                                       (Request review))
                              (\<lambda>rev. case rev of
                                  Inl err \<Rightarrow> panic err
                                | Inr _ \<Rightarrow>
                                    andThen (listDifferentialReviewsOrDie w (Revision review))
                                      (\<lambda>existingReviews'.
                                         forEach existingReviews'
                                           (\<lambda>existing. updateReviewDiffs w repo existing head
                                              (Request review) review))))))"

text \<open>The loop of \<open>EnsureRequestExists\<close> for a submitted review.\<close>

definition closeOpenReviews :: "world \<Rightarrow> DifferentialReview list \<Rightarrow> unit run" where
  "closeOpenReviews w existingReviews =
     forEach existingReviews
       (\<lambda>differentialReview.
          if \<not> isClosed differentialReview then close w differentialReview else ret ())"

text \<open>The calls that change the remote side: everything but the three reads.\<close>

fun isMutation :: "call \<Rightarrow> bool" where
  "isMutation (DifferentialQuery hashes status) = False"
| "isMutation (ReadDiff diffID) = False"
| "isMutation (LoadComments revisionID) = False"
| "isMutation (QueryUser name) = False"
| "isMutation c = True"

fun isClose :: "call \<Rightarrow> bool" where
  "isClose (DifferentialClose reviewID) = True"
| "isClose c = False"

text \<open>Mirroring of reports and comments: reading diffs and comments, setting diff
  properties, posting inline comments and the comment that attaches them.\<close>

fun isMirroring :: "call \<Rightarrow> bool" where
  "isMirroring (ReadDiff diffID) = True"
| "isMirroring (SetDiffProperty diffID name data) = True"
| "isMirroring (LoadComments revisionID) = True"
| "isMirroring (DifferentialCreateInline request) = True"
| "isMirroring (DifferentialCreateComment request) = True"
| "isMirroring c = False"

text \<open>The calls that a run adds to those sent before it.\<close>

definition newCalls :: "pstate \<Rightarrow> pstate \<Rightarrow> call list" where
  "newCalls st st' = drop (length (conduit st)) (conduit st')"

definition start :: pstate where
  "start = \<lparr> closedRevisionsMap = (\<lambda>revision. False), conduit = [] \<rparr>"

text \<open>The close calls that a submitted review causes: one for each revision that is not closed.\<close>

definition closeCallsFor :: "DifferentialReview list \<Rightarrow> call list" where
  "closeCallsFor existingReviews =
     concat (map (\<lambda>differentialReview.
        if isClosed differentialReview then []
        else (case Atoi (ID differentialReview) of
                None \<Rightarrow> []
              | Some reviewID \<Rightarrow> [DifferentialClose reviewID])) existingReviews)"

text \<open>The first line of a description: what comes before its first newline.\<close>

definition firstLine :: "string \<Rightarrow> string" where
  "firstLine description = takeWhile (\<lambda>c. c \<noteq> newline) description"

text \<open>A thread that \<open>buildCommentRequests\<close> passes over: its root comment has no location,
  or no file path, or sits on a commit that the map from commits to diffs does not have.\<close>

definition unanchored :: "(string \<times> string) list \<Rightarrow> CommentThread \<Rightarrow> bool" where
  "unanchored commitToDiffMap t =
     (case Location (Comment t) of
        None \<Rightarrow> True
      | Some loc \<Rightarrow> Path loc = [] \<or> map_of commitToDiffMap (Commit loc) = None)"

section \<open>A way to speak about the calls of a run\<close>

text \<open>
  \<open>sendsFrom h P Q m\<close>: started after the calls \<open>h\<close>, the run \<open>m\<close> leaves the map of closed
  revisions as it is, only adds calls that satisfy \<open>P\<close>, and a value it returns satisfies \<open>Q\<close>.
\<close>

definition sendsFrom :: "call list \<Rightarrow> (call \<Rightarrow> bool) \<Rightarrow> ('a \<Rightarrow> bool) \<Rightarrow> 'a run \<Rightarrow> bool" where
  "sendsFrom h P Q m =
     (\<forall>st r st'. prefix h (conduit st) \<longrightarrow> m st = (r, st') \<longrightarrow>
        closedRevisionsMap st' = closedRevisionsMap st
        \<and> (\<exists>cs. conduit st' = conduit st @ cs \<and> list_all P cs)
        \<and> (\<forall>x. r = Inr x \<longrightarrow> Q x))"



section \<open>Concrete inputs\<close>

definition blankComment :: Comment where
  "blankComment = \<lparr> Timestamp = ''012345'', Author = ''bar@foo.com'', Location = None,
      Description = [], Resolved = Some False \<rparr>"

definition plainQuote :: "Comment \<Rightarrow> string" where
  "plainQuote c = Author c @ '': '' @ Description c"

definition fileComment :: Comment where
  "fileComment = \<lparr> Timestamp = ''012345'', Author = ''foo@bar.com'',
      Location = Some \<lparr> Commit = ''H'', Path = ''hello.txt'', Range = Some \<lparr> StartLine = 42 \<rparr> \<rparr>,
      Description = ''Some comment'', Resolved = None \<rparr>"

definition replyComment :: Comment where
  "replyComment = \<lparr> Timestamp = ''456789'', Author = ''bot@robots-r-us.com'',
      Location = Some \<lparr> Commit = ''H'', Path = ''hello.txt'', Range = Some \<lparr> StartLine = 42 \<rparr> \<rparr>,
      Description = ''Actually, I disagree'', Resolved = None \<rparr>"

definition wholeReviewComment :: Comment where
  "wholeReviewComment = \<lparr> Timestamp = ''222222'', Author = ''foo@bar.com'', Location = None,
      Description = ''Looks good'', Resolved = Some True \<rparr>"

definition fileThread :: CommentThread where
  "fileThread = CommentThread ''0'' fileComment [CommentThread ''1'' replyComment []]"

definition wholeReviewThread :: CommentThread where
  "wholeReviewThread = CommentThread ''2'' wholeReviewComment []"

definition openRevision :: DifferentialReview where
  "openRevision = \<lparr> ID = ''7'', PHID = ''PHID-DREV-7'', Title = ''Fix bug'', Branch = ''master'',
      Status = ''0'', StatusName = ''Needs Review'', AuthorPHID = ''PHID-USER-1'',
      Reviewers = [], Hashes = [[''gtcm'', ''H'']], Diffs = [''1''] \<rparr>"

definition closedRevision :: DifferentialReview where
  "closedRevision = openRevision \<lparr> ID := ''8'', Status := ''3'', StatusName := ''Closed'' \<rparr>"

definition passingReport :: Report where
  "passingReport = \<lparr> report_Timestamp = ''1'', URL = ''http://ci.example/1'',
      report_Status = ''success'', Agent = ''ci'' \<rparr>"

definition pendingReport :: Report where
  "pendingReport = \<lparr> report_Timestamp = ''1'', URL = [], report_Status = ''pending'',
      Agent = ''ci'' \<rparr>"

text \<open>
  A remote side that answers every call in the same way whatever happened before: one open
  revision that already holds the commit \<open>H\<close>, with one diff whose last commit is \<open>H\<close>, and the
  comments \<open>remoteComments\<close>.
\<close>

definition steadyRespond :: "Comment list \<Rightarrow> call list \<Rightarrow> call \<Rightarrow> response" where
  "steadyRespond remoteComments h c =
     (case c of
        DifferentialQuery hashes status \<Rightarrow> QueryResponse [openRevision, closedRevision]
      | CreateDifferentialDiff base head priorDiffs \<Rightarrow> DiffResponse (Inr (Some 2))
      | ReadDiff diffID \<Rightarrow> LastCommitResponse (Inr ''H'')
      | SetDiffProperty diffID name data \<Rightarrow> PropertyResponse None
      | LoadComments revisionID \<Rightarrow> CommentsResponse remoteComments
      | QueryUser name \<Rightarrow> UserResponse (Inr (Some (''PHID-'' @ name)))
      | _ \<Rightarrow> ErrorResponse [] [])"

definition steadyWorld :: "Comment list \<Rightarrow> world" where
  "steadyWorld remoteComments =
     \<lparr> respond = steadyRespond remoteComments, QuoteDescription = plainQuote,
       marshalUnit = (\<lambda>properties. Inr ''[unit]''),
       marshalLint = (\<lambda>properties. Inr ''[lint]'') \<rparr>"

definition someRepo :: Repo where
  "someRepo = \<lparr> MergeBase = (\<lambda>ref commit. Inr ''B''),
      LatestCIReport = (\<lambda>commit. Inr (Some passingReport)),
      LatestAnalysesReport = (\<lambda>commit. Inr None) \<rparr>"

definition someRequest :: Request where
  "someRequest = \<lparr> ReviewRef = ''refs/heads/feature'', TargetRef = ''refs/heads/master'',
      Requester = ''alice'', req_Reviewers = [''bob''], req_Description = ''Fix bug'' \<rparr>"

definition pendingReview :: Review where
  "pendingReview = \<lparr> Revision = ''R'', Request = someRequest, Comments = [],
      Submitted = False, GetBaseCommit = Inr ''B'', GetHeadCommit = Inr ''H'' \<rparr>"

definition submittedReview :: Review where
  "submittedReview = pendingReview \<lparr> Submitted := True \<rparr>"

definition twoLines :: string where
  "twoLines = ''Fix bug'' @ [newline] @ ''Details here''"

definition longLine :: string where
  "longLine = replicate 257 (CHR ''a'')"

text \<open>A call carries the title and the summary of \<open>f0\<close> when it asks for a new revision
  with them; the other calls carry nothing.\<close>

fun carries :: "revisionFields \<Rightarrow> call \<Rightarrow> bool" where
  "carries f0 (DifferentialCreateRevision diffID f) =
     (rf_Title f = rf_Title f0 \<and> rf_Summary f = rf_Summary f0)"
| "carries f0 c = True"

text \<open>The calls that create a diff or create, update or close a revision.\<close>

fun touchesRevision :: "call \<Rightarrow> bool" where
  "touchesRevision (CreateDifferentialDiff base head priorDiffs) = True"
| "touchesRevision (DifferentialCreateRevision diffID f) = True"
| "touchesRevision (DifferentialUpdateRevision revisionID diffID) = True"
| "touchesRevision (DifferentialClose reviewID) = True"
| "touchesRevision c = False"

definition longRequest :: Request where
  "longRequest = someRequest \<lparr> req_Description := longLine \<rparr>"

definition twoLinesRequest :: Request where
  "twoLinesRequest = someRequest \<lparr> req_Description := twoLines \<rparr>"

definition resolvedFields :: "string \<Rightarrow> string \<Rightarrow> revisionFields" where
  "resolvedFields title summary =
     \<lparr> rf_Title = title, rf_Summary = summary, rf_Reviewers = [''PHID-bob''],
       rf_CCs = [''PHID-alice''] \<rparr>"

text \<open>The state after \<open>createDifferentialRevision\<close> has run from the start for a request of
  \<open>bob\<close> and \<open>alice\<close>, with the title and summary that it sent.\<close>

definition afterCreate :: "string \<Rightarrow> string \<Rightarrow> pstate" where
  "afterCreate title summary =
     start \<lparr> conduit := [QueryUser ''bob'', QueryUser ''alice'',
                          DifferentialCreateRevision 2 (resolvedFields title summary)] \<rparr>"

text \<open>The calls of one pass over the pending review against the steady remote side: the
  query, and the mirroring for the open revision.\<close>

definition queryR :: call where
  "queryR = DifferentialQuery [[''gtcm'', ''R'']] []"

definition mirroringCalls :: "call list" where
  "mirroringCalls = [ReadDiff 1, SetDiffProperty 1 ''arc:unit'' ''[unit]'', LoadComments ''7'']"

definition afterCalls :: "call list \<Rightarrow> pstate" where
  "afterCalls cs = start \<lparr> conduit := cs \<rparr>"

text \<open>The state after the submitted review has been handled once from the start.\<close>

definition afterClose :: pstate where
  "afterClose = \<lparr> closedRevisionsMap = (\<lambda>revision. revision = ''R''),
                  conduit = [queryR, DifferentialClose 7] \<rparr>"

text \<open>A pending review with comments, and a remote side that already reports the comments
  that sit on a file.\<close>

definition commentedReview :: Review where
  "commentedReview = pendingReview \<lparr> Comments := [fileThread, wholeReviewThread] \<rparr>"


text \<open>
  The data of \<open>TestFilterOverlapping\<close> in \<open>mirror/review/comment_test.go\<close>, for a quoting
  function \<open>quote\<close>. The test expects the result to be the reply and the misquoted reject.
\<close>

definition testDescription :: string where
  "testDescription = ''Some comment description'' @ [newline, newline] @ ''With some text in it.''"

definition testLocation :: Location where
  "testLocation = \<lparr> Commit = ''ABCDEFG'', Path = ''hello.txt'',
                     Range = Some \<lparr> StartLine = 42 \<rparr> \<rparr>"

definition testOriginalComment :: Comment where
  "testOriginalComment = \<lparr> Timestamp = ''012345'', Author = ''foo@bar.com'',
      Location = Some testLocation, Description = testDescription, Resolved = Some False \<rparr>"

definition testQuotedComment :: "(Comment \<Rightarrow> string) \<Rightarrow> Comment" where
  "testQuotedComment quote = \<lparr> Timestamp = ''456789'', Author = ''bot@robots-r-us.com'',
      Location = Some testLocation, Description = quote testOriginalComment, Resolved = None \<rparr>"

definition testReplyComment :: Comment where
  "testReplyComment = \<lparr> Timestamp = ''456789'', Author = ''bot@robots-r-us.com'',
      Location = Some testLocation,
      Description = [CHR 0x27] @ testDescription @ [CHR 0x27] @ '': Actually, I disagree'',
      Resolved = None \<rparr>"

definition testOriginalReject :: Comment where
  "testOriginalReject = \<lparr> Timestamp = ''012345'', Author = ''foo@bar.com'',
      Location = Some \<lparr> Commit = ''ABCDEFG'', Path = [], Range = None \<rparr>,
      Description = testDescription, Resolved = Some False \<rparr>"

definition testQuotedReject :: "(Comment \<Rightarrow> string) \<Rightarrow> Comment" where
  "testQuotedReject quote = \<lparr> Timestamp = ''456789'', Author = ''bot@robots-r-us.com'',
      Location = Some \<lparr> Commit = ''ABCDEFG'', Path = [], Range = None \<rparr>,
      Description = quote testOriginalReject, Resolved = Some False \<rparr>"

definition testMisQuotedReject :: "(Comment \<Rightarrow> string) \<Rightarrow> Comment" where
  "testMisQuotedReject quote = \<lparr> Timestamp = ''456789'', Author = ''bot@robots-r-us.com'',
      Location = Some \<lparr> Commit = ''ABCDEFG'', Path = [], Range = None \<rparr>,
      Description = quote testOriginalReject, Resolved = None \<rparr>"

definition testThreads :: "(Comment \<Rightarrow> string) \<Rightarrow> CommentThread list" where
  "testThreads quote =
     [CommentThread ''0'' testOriginalComment [],
      CommentThread ''1'' (testQuotedComment quote) [],
      CommentThread ''2'' testReplyComment [],
      CommentThread ''3'' testOriginalReject [],
      CommentThread ''4'' (testQuotedReject quote) [],
      CommentThread ''5'' (testMisQuotedReject quote) []]"

definition testExisting :: "Comment list" where
  "testExisting = [testOriginalComment, testOriginalReject]"

text \<open>
  A remote side that reflects what was sent to it: its one revision holds only the first
  commit \<open>R\<close> and the diff 1 until the revision has been updated with the diff 2; from then
  on it holds the head \<open>H\<close> and both diffs. It has no comments.
\<close>

definition staleRevision :: DifferentialReview where
  "staleRevision = openRevision \<lparr> Hashes := [[''gtcm'', ''R'']] \<rparr>"

definition updatedRevision :: DifferentialReview where
  "updatedRevision = openRevision \<lparr> Hashes := [[''gtcm'', ''H'']], Diffs := [''1'', ''2''] \<rparr>"

definition reflectingRespond :: "call list \<Rightarrow> call \<Rightarrow> response" where
  "reflectingRespond h c =
     (case c of
        DifferentialQuery hashes status \<Rightarrow>
          QueryResponse [if DifferentialUpdateRevision ''7'' ''2'' \<in> set h
                         then updatedRevision else staleRevision]
      | CreateDifferentialDiff base head priorDiffs \<Rightarrow> DiffResponse (Inr (Some 2))
      | ReadDiff diffID \<Rightarrow> LastCommitResponse (Inr (if diffID = 2 then ''H'' else ''R''))
      | SetDiffProperty diffID name data \<Rightarrow> PropertyResponse None
      | LoadComments revisionID \<Rightarrow> CommentsResponse []
      | QueryUser name \<Rightarrow> UserResponse (Inr (Some (''PHID-'' @ name)))
      | _ \<Rightarrow> ErrorResponse [] [])"

definition reflectingWorld :: world where
  "reflectingWorld =
     \<lparr> respond = reflectingRespond, QuoteDescription = plainQuote,
       marshalUnit = (\<lambda>properties. Inr ''[unit]''),
       marshalLint = (\<lambda>properties. Inr ''[lint]'') \<rparr>"

definition firstPassCalls :: "call list" where
  "firstPassCalls =
     [queryR, CreateDifferentialDiff ''B'' ''H'' [''1''], DifferentialUpdateRevision ''7'' ''2'']"

definition inlineFor :: "Comment \<Rightarrow> createInlineRequest" where
  "inlineFor c = \<lparr> ci_RevisionID = ''7'', ci_DiffID = ''2'', ci_FilePath = ''hello.txt'',
                    ci_LineNumber = 42, ci_Content = plainQuote c, ci_IsNewFile = 1 \<rparr>"

definition secondPassCalls :: "call list" where
  "secondPassCalls =
     [queryR, ReadDiff 1, ReadDiff 2,
      SetDiffProperty 1 ''arc:unit'' ''[unit]'', SetDiffProperty 2 ''arc:unit'' ''[unit]'',
      LoadComments ''7'',
      DifferentialCreateInline (inlineFor fileComment),
      DifferentialCreateInline (inlineFor replyComment),
      DifferentialCreateComment \<lparr> cc_RevisionID = ''7'', cc_Message = [],
        cc_Action = ''comment'', cc_AttachInlines = True \<rparr>]"

section \<open>The overlap predicate\<close>

lemma sameResolved_iff: "sameResolved ra rb \<longleftrightarrow> ra = rb"
  by (cases ra; cases rb) (auto simp: sameResolved_def)

lemma Overlaps_refl: "Overlaps quote c c"
  by (simp add: Overlaps_def sameResolved_iff)

lemma overlapsAny_iff: "overlapsAny quote c es \<longleftrightarrow> (\<exists>e \<in> set es. Overlaps quote c e)"
  by (induction es) auto

text \<open>
  C3. For every pair of comments \<open>a\<close> and \<open>b\<close>, \<open>Overlaps a b\<close> is the same boolean as
  \<open>Overlaps b a\<close>, whatever the quoting function is.
\<close>

theorem Overlaps_symmetric: "Overlaps quote a b = Overlaps quote b a"
  unfolding Overlaps_def sameResolved_iff by auto

text \<open>
  C4. Two comments whose resolved flags differ (one absent and one set, or both set with
  unequal values) do not overlap, whatever their timestamps and descriptions are.
\<close>

theorem Overlaps_resolved_differ:
  "Resolved a \<noteq> Resolved b \<Longrightarrow> \<not> Overlaps quote a b"
  by (simp add: Overlaps_def sameResolved_iff)

theorem Overlaps_resolved_differ_witness:
  "Resolved blankComment \<noteq> Resolved (blankComment\<lparr>Resolved := None\<rparr>)
   \<and> Timestamp blankComment = Timestamp (blankComment\<lparr>Resolved := None\<rparr>)
   \<and> Description blankComment = Description (blankComment\<lparr>Resolved := None\<rparr>)
   \<and> \<not> Overlaps plainQuote blankComment (blankComment\<lparr>Resolved := None\<rparr>)"
  using Overlaps_resolved_differ [of blankComment "blankComment\<lparr>Resolved := None\<rparr>" plainQuote]
  by (simp add: blankComment_def)

section \<open>Filtering threads\<close>

lemma concat_map_filter:
  "(\<And>x. x \<in> set xs \<Longrightarrow> g x = filter P (f x))
     \<Longrightarrow> concat (map g xs) = filter P (concat (map f xs))"
  by (induction xs) simp_all

lemma filterThread_flatten:
  "filterThread quote existing t = filter (\<lambda>c. \<not> overlapsAny quote c existing) (flatten t)"
proof (induction t)
  case (CommentThread h c children)
  have "concat (map (filterThread quote existing) children)
      = filter (\<lambda>c. \<not> overlapsAny quote c existing) (concat (map flatten children))"
    using CommentThread by (rule concat_map_filter)
  then show ?case by simp
qed

lemma FilterOverlapping_flatten:
  "FilterOverlapping quote threads existing
     = filter (\<lambda>c. \<not> overlapsAny quote c existing) (concat (map flatten threads))"
  unfolding FilterOverlapping_def by (rule concat_map_filter) (rule filterThread_flatten)

lemma flatten_asThread: "concat (map flatten (map asThread cs)) = cs"
  by (induction cs) (simp_all add: asThread_def)

text \<open>
  C5, as amended. \<open>FilterOverlapping threads existing\<close> is the traversal of the threads
  (parent before children, children in their order) with the comments removed that overlap
  a comment of \<open>existing\<close>; its comments are exactly those of the threads that overlap no
  comment of \<open>existing\<close>; filtering the output against \<open>existing\<close> again gives the output
  unchanged; filtering it against \<open>existing\<close> together with the output gives nothing.
\<close>

theorem FilterOverlapping_stable_idempotent:
  "FilterOverlapping quote threads existing
     = filter (\<lambda>c. \<not> overlapsAny quote c existing) (concat (map flatten threads))
   \<and> set (FilterOverlapping quote threads existing)
     = {c \<in> set (concat (map flatten threads)). \<forall>e \<in> set existing. \<not> Overlaps quote c e}
   \<and> FilterOverlapping quote (map asThread (FilterOverlapping quote threads existing)) existing
     = FilterOverlapping quote threads existing
   \<and> FilterOverlapping quote (map asThread (FilterOverlapping quote threads existing))
        (existing @ FilterOverlapping quote threads existing) = []"
proof -
  let ?out = "FilterOverlapping quote threads existing"
  have a: "?out = filter (\<lambda>c. \<not> overlapsAny quote c existing) (concat (map flatten threads))"
    by (rule FilterOverlapping_flatten)
  have s: "set ?out
     = {c \<in> set (concat (map flatten threads)). \<forall>e \<in> set existing. \<not> Overlaps quote c e}"
    unfolding a by (auto simp: overlapsAny_iff)
  have b: "FilterOverlapping quote (map asThread ?out) existing = ?out"
    unfolding FilterOverlapping_flatten [of quote "map asThread ?out"] flatten_asThread
    by (simp add: a)
  have "\<forall>c \<in> set ?out. overlapsAny quote c (existing @ ?out)"
    using Overlaps_refl by (auto simp: overlapsAny_iff)
  then have c: "FilterOverlapping quote (map asThread ?out) (existing @ ?out) = []"
    unfolding FilterOverlapping_flatten [of quote "map asThread ?out"] flatten_asThread
    by (simp add: filter_empty_conv)
  from a s b c show ?thesis by blast
qed

theorem FilterOverlapping_stable_idempotent_witness:
  "FilterOverlapping plainQuote [fileThread, wholeReviewThread] [fileComment]
     = [replyComment, wholeReviewComment]
   \<and> FilterOverlapping plainQuote (map asThread [replyComment, wholeReviewComment]) [fileComment]
     = [replyComment, wholeReviewComment]
   \<and> FilterOverlapping plainQuote (map asThread [replyComment, wholeReviewComment])
        ([fileComment] @ [replyComment, wholeReviewComment]) = []"
proof -
  have out: "FilterOverlapping plainQuote [fileThread, wholeReviewThread] [fileComment]
     = [replyComment, wholeReviewComment]"
    by (simp add: FilterOverlapping_def fileThread_def wholeReviewThread_def Overlaps_def
        sameResolved_def fileComment_def replyComment_def wholeReviewComment_def)
  note t = FilterOverlapping_stable_idempotent
      [of plainQuote "[fileThread, wholeReviewThread]" "[fileComment]"]
  from t have b: "FilterOverlapping plainQuote
      (map asThread (FilterOverlapping plainQuote [fileThread, wholeReviewThread] [fileComment]))
      [fileComment]
    = FilterOverlapping plainQuote [fileThread, wholeReviewThread] [fileComment]"
    by blast
  from t have c: "FilterOverlapping plainQuote
      (map asThread (FilterOverlapping plainQuote [fileThread, wholeReviewThread] [fileComment]))
      ([fileComment] @ FilterOverlapping plainQuote [fileThread, wholeReviewThread] [fileComment])
    = []"
    by blast
  show ?thesis using out b [unfolded out] c [unfolded out] by blast
qed

text \<open>
  C5 as stated fails: the output of filtering one comment against nothing is that comment,
  and filtering it against the union of nothing and the output removes it, since a comment
  overlaps itself.
\<close>

theorem FilterOverlapping_union_counterexample:
  "FilterOverlapping plainQuote
      (map asThread (FilterOverlapping plainQuote [asThread fileComment] []))
      ([] @ FilterOverlapping plainQuote [asThread fileComment] [])
   \<noteq> FilterOverlapping plainQuote [asThread fileComment] []"
  by (simp add: FilterOverlapping_def asThread_def Overlaps_def sameResolved_def
      fileComment_def)

section \<open>Reports of continuous integration\<close>

text \<open>
  C9. The status \<open>success\<close> becomes \<open>pass\<close>, \<open>failure\<close> becomes \<open>fail\<close>, and every other
  status, the empty one too, becomes \<open>skip\<close>; for a report with an empty URL the unit
  property is empty, and reporting it sends no call.
\<close>

theorem unit_result_translation:
  "translateReportStatusToDifferentialUnitResult ''success'' = ''pass''
   \<and> translateReportStatusToDifferentialUnitResult ''failure'' = ''fail''
   \<and> translateReportStatusToDifferentialUnitResult [] = ''skip''
   \<and> (status \<noteq> ''success'' \<and> status \<noteq> ''failure''
        \<longrightarrow> translateReportStatusToDifferentialUnitResult status = ''skip'')
   \<and> (URL report = [] \<longrightarrow> generateUnitDiffProperty marshal report = Inr []
        \<and> reportUnitResults w diffID report st = (Inr (), st))"
  by (simp add: translateReportStatusToDifferentialUnitResult_def generateUnitDiffProperty_def
      reportUnitResults_def ret_def)

theorem unit_result_translation_witness:
  "''pending'' \<noteq> ''success'' \<and> ''pending'' \<noteq> ''failure''
   \<and> translateReportStatusToDifferentialUnitResult ''pending'' = ''skip''
   \<and> URL pendingReport = []
   \<and> generateUnitDiffProperty (marshalUnit (steadyWorld [])) pendingReport = Inr []
   \<and> reportUnitResults (steadyWorld []) 1 pendingReport start = (Inr (), start)"
  using unit_result_translation
    [of "''pending''" pendingReport "marshalUnit (steadyWorld [])" "steadyWorld []" 1 start]
  by (simp add: pendingReport_def)


lemma sendsFromD:
  assumes s: "sendsFrom h P Q m" and pre: "prefix h (conduit st)" and run: "m st = (r, st')"
  shows "closedRevisionsMap st' = closedRevisionsMap st
        \<and> (\<exists>cs. conduit st' = conduit st @ cs \<and> list_all P cs)
        \<and> (\<forall>x. r = Inr x \<longrightarrow> Q x)"
proof -
  from s have a: "\<forall>st r st'. prefix h (conduit st) \<longrightarrow> m st = (r, st') \<longrightarrow>
        closedRevisionsMap st' = closedRevisionsMap st
        \<and> (\<exists>cs. conduit st' = conduit st @ cs \<and> list_all P cs)
        \<and> (\<forall>x. r = Inr x \<longrightarrow> Q x)"
    unfolding sendsFrom_def .
  note b = a [THEN spec [where x = st], THEN spec [where x = r], THEN spec [where x = "st'"]]
  from b pre run show ?thesis by (elim impE) assumption+
qed
lemma sendsFrom_ret: "Q x \<Longrightarrow> sendsFrom h P Q (ret x)"
  by (simp add: sendsFrom_def ret_def)

lemma sendsFrom_panic: "sendsFrom h P Q (panic msg)"
  by (simp add: sendsFrom_def panic_def)

lemma sendsFrom_andThen:
  assumes m: "sendsFrom h P Q m" and f: "\<And>x. Q x \<Longrightarrow> sendsFrom h P R (f x)"
  shows "sendsFrom h P R (andThen m f)"
  unfolding sendsFrom_def
proof (intro allI impI)
  fix st r st'
  assume pre: "prefix h (conduit st)" and run: "andThen m f st = (r, st')"
  obtain r1 st1 where m1: "m st = (r1, st1)" by (cases "m st")
  note d1 = sendsFromD [OF m pre m1]
  from d1 have c1: "closedRevisionsMap st1 = closedRevisionsMap st" by (rule conjunct1)
  from d1 obtain cs1 where h1: "conduit st1 = conduit st @ cs1" and p1: "list_all P cs1"
    by (elim conjE exE)
  from d1 have q1: "\<forall>x. r1 = Inr x \<longrightarrow> Q x" by (elim conjE)
  show "closedRevisionsMap st' = closedRevisionsMap st
        \<and> (\<exists>cs. conduit st' = conduit st @ cs \<and> list_all P cs)
        \<and> (\<forall>x. r = Inr x \<longrightarrow> R x)"
  proof (cases r1)
    case (Inl msg)
    with run m1 have "r = Inl msg" and "st' = st1" by (simp_all add: andThen_def)
    with c1 h1 p1 show ?thesis by auto
  next
    case (Inr x)
    with run m1 have run2: "f x st1 = (r, st')" by (simp add: andThen_def)
    from pre h1 have pre1: "prefix h (conduit st1)" by simp
    from Inr q1 have "Q x" by simp
    note d2 = sendsFromD [OF f [OF this] pre1 run2]
    from d2 have c2: "closedRevisionsMap st' = closedRevisionsMap st1" by (rule conjunct1)
    from d2 obtain cs2 where h2: "conduit st' = conduit st1 @ cs2" and p2: "list_all P cs2"
      by (elim conjE exE)
    from d2 have q2: "\<forall>y. r = Inr y \<longrightarrow> R y" by (elim conjE)
    from h1 h2 have "conduit st' = conduit st @ (cs1 @ cs2)" by simp
    moreover from p1 p2 have "list_all P (cs1 @ cs2)" by simp
    ultimately have "\<exists>cs. conduit st' = conduit st @ cs \<and> list_all P cs" by (rule_tac x = "cs1 @ cs2" in exI) simp
    moreover from c1 c2 have "closedRevisionsMap st' = closedRevisionsMap st" by simp
    ultimately show ?thesis using q2 by simp
  qed
qed

lemma sendsFrom_forEach:
  "(\<And>x. x \<in> set xs \<Longrightarrow> sendsFrom h P (\<lambda>_. True) (body x))
     \<Longrightarrow> sendsFrom h P (\<lambda>_. True) (forEach xs body)"
proof (induction xs)
  case Nil
  show ?case by (simp add: sendsFrom_ret)
next
  case (Cons x xs)
  have head: "sendsFrom h P (\<lambda>_. True) (body x)" by (rule Cons.prems) simp
  have rest: "sendsFrom h P (\<lambda>_. True) (forEach xs body)"
    by (rule Cons.IH) (rule Cons.prems, simp)
  show ?case unfolding forEach.simps
    by (rule sendsFrom_andThen [OF head]) (rule rest)
qed

lemma sendsFrom_runArc:
  assumes "P c"
  shows "sendsFrom h P (\<lambda>r. \<exists>h'. prefix h h' \<and> respond w h' c = r) (runArcCommandOrDie w c)"
  unfolding sendsFrom_def
proof (intro allI impI)
  fix st r st'
  assume pre: "prefix h (conduit st)" and run: "runArcCommandOrDie w c st = (r, st')"
  from run have st': "st' = st\<lparr>conduit := conduit st @ [c]\<rparr>"
    by (cases "respond w (conduit st) c") (simp_all add: runArcCommandOrDie_def)
  have val: "\<forall>x. r = Inr x \<longrightarrow> respond w (conduit st) c = x"
    using run by (cases "respond w (conduit st) c") (auto simp add: runArcCommandOrDie_def)
  have "conduit st' = conduit st @ [c] \<and> list_all P [c]" using st' assms by simp
  then show "closedRevisionsMap st' = closedRevisionsMap st
        \<and> (\<exists>cs. conduit st' = conduit st @ cs \<and> list_all P cs)
        \<and> (\<forall>x. r = Inr x \<longrightarrow> (\<exists>h'. prefix h h' \<and> respond w h' c = x))"
    using st' val pre by auto
qed

lemma sendsFrom_newCalls:
  assumes m: "sendsFrom (conduit st) P Q m" and run: "m st = (r, st')"
  shows "conduit st' = conduit st @ newCalls st st'
         \<and> list_all P (newCalls st st')
         \<and> closedRevisionsMap st' = closedRevisionsMap st
         \<and> (\<forall>x. r = Inr x \<longrightarrow> Q x)"
proof -
  have pre: "prefix (conduit st) (conduit st)" by simp
  note d = sendsFromD [OF m pre run]
  from d have c: "closedRevisionsMap st' = closedRevisionsMap st" by (rule conjunct1)
  from d obtain cs where h: "conduit st' = conduit st @ cs" and p: "list_all P cs"
    by (elim conjE exE)
  from d have q: "\<forall>x. r = Inr x \<longrightarrow> Q x" by (elim conjE)
  from h have n: "newCalls st st' = cs" by (simp add: newCalls_def)
  from h p c q show ?thesis unfolding n by simp
qed

subsection \<open>The helpers\<close>

lemma sendsFrom_listDifferentialReviewsOrDie:
  "P (DifferentialQuery [[commitHashType, revision]] [])
     \<Longrightarrow> sendsFrom h P (\<lambda>_. True) (listDifferentialReviewsOrDie w revision)"
  unfolding listDifferentialReviewsOrDie_def
  by (rule sendsFrom_andThen [OF sendsFrom_runArc])
     (auto intro: sendsFrom_ret sendsFrom_panic split: response.splits)

lemma sendsFrom_close:
  "(\<And>n. P (DifferentialClose n)) \<Longrightarrow> sendsFrom h P (\<lambda>_. True) (close w d)"
  unfolding close_def
  by (auto intro!: sendsFrom_andThen [OF sendsFrom_runArc] sendsFrom_ret sendsFrom_panic
      split: response.splits option.splits)

lemma sendsFrom_queryUser:
  "(\<And>n. P (QueryUser n)) \<Longrightarrow> sendsFrom h P (\<lambda>_. True) (queryUser w name)"
  unfolding queryUser_def
  by (auto intro!: sendsFrom_andThen [OF sendsFrom_runArc] sendsFrom_ret sendsFrom_panic
      split: response.splits)

lemma sendsFrom_createDifferentialDiff:
  "P (CreateDifferentialDiff base head prior)
     \<Longrightarrow> sendsFrom h P (\<lambda>_. True) (createDifferentialDiff w base head prior)"
  unfolding createDifferentialDiff_def
  by (auto intro!: sendsFrom_andThen [OF sendsFrom_runArc] sendsFrom_ret sendsFrom_panic
      split: response.splits)

lemma sendsFrom_setDiffProperty:
  "P (SetDiffProperty diffID name data)
     \<Longrightarrow> sendsFrom h P (\<lambda>_. True) (setDiffProperty w diffID name data)"
  unfolding setDiffProperty_def
  by (auto intro!: sendsFrom_andThen [OF sendsFrom_runArc] sendsFrom_ret sendsFrom_panic
      split: response.splits)

lemma sendsFrom_LoadCommentsOf:
  "P (LoadComments (ID d))
     \<Longrightarrow> sendsFrom h P
           (\<lambda>cs. \<exists>h'. prefix h h' \<and> respond w h' (LoadComments (ID d)) = CommentsResponse cs)
           (LoadCommentsOf w d)"
  unfolding LoadCommentsOf_def
  by (rule sendsFrom_andThen [OF sendsFrom_runArc])
     (auto intro: sendsFrom_ret sendsFrom_panic split: response.splits)

lemma sendsFrom_findCommitForDiff:
  "(\<And>n. P (ReadDiff n)) \<Longrightarrow> sendsFrom h P (\<lambda>_. True) (findCommitForDiff w s)"
  unfolding findCommitForDiff_def
  by (auto intro!: sendsFrom_andThen [OF sendsFrom_runArc] sendsFrom_ret sendsFrom_panic
      split: response.splits option.splits sum.splits)

lemma sendsFrom_commitMaps:
  "(\<And>n. P (ReadDiff n)) \<Longrightarrow> sendsFrom h P (\<lambda>_. True) (commitMaps w ds m im)"
proof (induction ds arbitrary: m im)
  case Nil
  show ?case by (simp add: sendsFrom_ret)
next
  case (Cons d ds)
  show ?case unfolding commitMaps.simps
    by (rule sendsFrom_andThen [OF sendsFrom_findCommitForDiff]) (simp_all add: Cons)
qed

lemma sendsFrom_reportUnitResults:
  "(\<And>n name data. P (SetDiffProperty n name data))
     \<Longrightarrow> sendsFrom h P (\<lambda>_. True) (reportUnitResults w diffID report)"
  unfolding reportUnitResults_def
  by (auto intro!: sendsFrom_andThen [OF sendsFrom_setDiffProperty] sendsFrom_ret sendsFrom_panic
      split: option.splits sum.splits)

lemma sendsFrom_reportLintResults:
  "(\<And>n name data. P (SetDiffProperty n name data))
     \<Longrightarrow> sendsFrom h P (\<lambda>_. True) (reportLintResults w diffID results)"
  unfolding reportLintResults_def
  by (auto intro!: sendsFrom_andThen [OF sendsFrom_setDiffProperty] sendsFrom_ret sendsFrom_panic
      split: option.splits sum.splits)

lemma sendsFrom_mirrorStatusesForEachCommit:
  assumes "\<And>n name data. P (SetDiffProperty n name data)"
  shows "sendsFrom h P (\<lambda>_. True) (mirrorStatusesForEachCommit w repo im)"
  unfolding mirrorStatusesForEachCommit_def
proof (rule sendsFrom_forEach)
  fix x :: "string \<times> int"
  obtain commitHash diffID where x: "x = (commitHash, diffID)" by (cases x)
  have a: "sendsFrom h P (\<lambda>_. True)
     (case LatestCIReport repo commitHash of
        Inl err \<Rightarrow> ret ()
      | Inr None \<Rightarrow> ret ()
      | Inr (Some latestCIReport) \<Rightarrow> reportUnitResults w diffID latestCIReport)"
    by (auto intro: sendsFrom_ret sendsFrom_reportUnitResults assms
        split: sum.splits option.splits)
  have b: "sendsFrom h P (\<lambda>_. True)
     (case LatestAnalysesReport repo commitHash of
        Inl err \<Rightarrow> ret ()
      | Inr None \<Rightarrow> ret ()
      | Inr (Some (Inl err)) \<Rightarrow> ret ()
      | Inr (Some (Inr lintResults)) \<Rightarrow> reportLintResults w diffID lintResults)"
    by (auto intro: sendsFrom_ret sendsFrom_reportLintResults assms
        split: sum.splits option.splits)
  show "sendsFrom h P (\<lambda>_. True)
     (case x of (commitHash, diffID) \<Rightarrow>
        andThen
          (case LatestCIReport repo commitHash of
             Inl err \<Rightarrow> ret ()
           | Inr None \<Rightarrow> ret ()
           | Inr (Some latestCIReport) \<Rightarrow> reportUnitResults w diffID latestCIReport)
          (\<lambda>_. case LatestAnalysesReport repo commitHash of
                  Inl err \<Rightarrow> ret ()
                | Inr None \<Rightarrow> ret ()
                | Inr (Some (Inl err)) \<Rightarrow> ret ()
                | Inr (Some (Inr lintResults)) \<Rightarrow> reportLintResults w diffID lintResults))"
    unfolding x prod.case by (rule sendsFrom_andThen [OF a]) (rule b)
qed


section \<open>Title and summary of a new revision\<close>

lemma Split_first: "\<exists>rest. Split s sep = takeWhile (\<lambda>c. c \<noteq> sep) s # rest"
  by (induction s) (auto split: list.splits)

lemma takeWhile_whole: "takeWhile P s = s \<longleftrightarrow> (\<forall>c \<in> set s. P c)"
  by (induction s) auto

lemma titleAndSummary_eq:
  "titleAndSummary d =
     (let title = (if length (firstLine d) > 256 then take 252 (firstLine d) @ ''...''
                   else firstLine d)
      in Some \<lparr> rf_Title = title, rf_Summary = (if title \<noteq> d then d else []),
                rf_Reviewers = [], rf_CCs = [] \<rparr>)"
proof -
  obtain rest where "Split d newline = takeWhile (\<lambda>c. c \<noteq> newline) d # rest"
    using Split_first by blast
  then show ?thesis
    by (simp add: titleAndSummary_def differentialTitleLengthLimit_def Let_def firstLine_def)
qed

lemma title_long:
  assumes "length (firstLine d) > 256"
  shows "titleAndSummary d =
     Some \<lparr> rf_Title = take 252 (firstLine d) @ ''...'', rf_Summary = d,
            rf_Reviewers = [], rf_CCs = [] \<rparr>
     \<and> length (take 252 (firstLine d) @ ''...'') = 255 \<and> d \<noteq> []"
proof -
  have len: "length (take 252 (firstLine d) @ ''...'') = 255" using assms by simp
  have "length (firstLine d) \<le> length d"
    unfolding firstLine_def by (rule length_takeWhile_le)
  then have big: "length d > 256" using assms by simp
  then have ne: "d \<noteq> []" by auto
  have "take 252 (firstLine d) @ ''...'' \<noteq> d"
  proof
    assume "take 252 (firstLine d) @ ''...'' = d"
    then have "length (take 252 (firstLine d) @ ''...'') = length d" by (rule arg_cong)
    with len big show False by linarith
  qed
  then have "titleAndSummary d =
     Some \<lparr> rf_Title = take 252 (firstLine d) @ ''...'', rf_Summary = d,
            rf_Reviewers = [], rf_CCs = [] \<rparr>"
    using assms by (simp add: titleAndSummary_eq Let_def)
  with len ne show ?thesis by simp
qed

lemma title_short:
  assumes "length (firstLine d) \<le> 256"
  shows "titleAndSummary d =
     Some \<lparr> rf_Title = firstLine d, rf_Summary = (if newline \<in> set d then d else []),
            rf_Reviewers = [], rf_CCs = [] \<rparr>"
proof -
  have "firstLine d = d \<longleftrightarrow> newline \<notin> set d"
    unfolding firstLine_def by (auto simp: takeWhile_whole)
  then show ?thesis using assms by (auto simp add: titleAndSummary_eq Let_def)
qed

lemma sendsFrom_resolveUsers:
  "(\<And>n. P (QueryUser n)) \<Longrightarrow> sendsFrom h P (\<lambda>_. True) (resolveUsers w names acc)"
proof (induction names arbitrary: acc)
  case Nil
  show ?case by (simp add: sendsFrom_ret)
next
  case (Cons name names)
  show ?case unfolding resolveUsers.simps
    by (rule sendsFrom_andThen [OF sendsFrom_queryUser])
       (auto simp: Cons split: sum.splits option.splits)
qed

text \<open>Every revision that \<open>createDifferentialRevision\<close> asks for carries the title and the
  summary computed from the description.\<close>

lemma sendsFrom_createDifferentialRevision:
  assumes t: "titleAndSummary (req_Description req) = Some f0"
    and u: "\<And>n. P (QueryUser n)"
    and c: "\<And>f. rf_Title f = rf_Title f0 \<Longrightarrow> rf_Summary f = rf_Summary f0
              \<Longrightarrow> P (DifferentialCreateRevision diffID f)"
  shows "sendsFrom h P (\<lambda>_. True) (createDifferentialRevision w revision diffID req)"
proof -
  have last: "\<And>reviewers ccs. sendsFrom h P (\<lambda>_. True)
      (andThen (runArcCommandOrDie w
                  (DifferentialCreateRevision diffID
                     (f0\<lparr>rf_Reviewers := reviewers, rf_CCs := ccs\<rparr>)))
         (\<lambda>r. case r of
                 ErrorResponse err msg \<Rightarrow>
                   if err \<noteq> []
                   then ret (Inl (''Failed to create the differential revision: '' @ msg))
                   else ret (Inr ())
               | _ \<Rightarrow> panic malformed))"
    by (rule sendsFrom_andThen [OF sendsFrom_runArc])
       (auto intro: c sendsFrom_ret sendsFrom_panic split: response.splits)
  have ccs: "sendsFrom h P (\<lambda>_. True)
      (if Requester req \<noteq> [] then resolveUsers w [Requester req] (rf_CCs f0)
       else ret (rf_CCs f0))"
    by (auto simp del: resolveUsers.simps intro: sendsFrom_ret sendsFrom_resolveUsers u)
  show ?thesis
    unfolding createDifferentialRevision_def t option.case
    by (rule sendsFrom_andThen [OF sendsFrom_resolveUsers], rule u,
        rule sendsFrom_andThen [OF ccs], rule last)
qed

text \<open>When \<open>createDifferentialRevision\<close> returns, the last call it sent asks for the revision.\<close>

lemma andThen_Inr:
  "andThen m f st = (Inr y, st') \<Longrightarrow> \<exists>x st1. m st = (Inr x, st1) \<and> f x st1 = (Inr y, st')"
  by (cases "m st") (auto simp: andThen_def split: sum.splits)

lemma runArc_Inr:
  "runArcCommandOrDie w c st = (Inr r, st') \<Longrightarrow> conduit st' = conduit st @ [c]"
  by (cases "respond w (conduit st) c") (auto simp: runArcCommandOrDie_def)

lemma sendsFrom_extends:
  assumes m: "sendsFrom (conduit st) (\<lambda>_. True) (\<lambda>_. True) m" and run: "m st = (r, st')"
  shows "\<exists>cs. conduit st' = conduit st @ cs"
proof -
  have pre: "prefix (conduit st) (conduit st)" by simp
  from sendsFromD [OF m pre run] obtain cs where "conduit st' = conduit st @ cs"
    by (elim conjE exE)
  then show ?thesis by (rule exI)
qed

lemma createDifferentialRevision_last:
  assumes t: "titleAndSummary (req_Description req) = Some f0"
    and run: "createDifferentialRevision w revision diffID req st = (Inr x, st')"
  shows "\<exists>before reviewers ccs.
           conduit st' = conduit st @ before @ [DifferentialCreateRevision diffID
                (f0\<lparr>rf_Reviewers := reviewers, rf_CCs := ccs\<rparr>)]"
proof -
  have run': "andThen (resolveUsers w (req_Reviewers req) (rf_Reviewers f0))
      (\<lambda>reviewers.
         andThen (if Requester req \<noteq> [] then resolveUsers w [Requester req] (rf_CCs f0)
                  else ret (rf_CCs f0))
           (\<lambda>ccs. andThen (runArcCommandOrDie w
                     (DifferentialCreateRevision diffID
                        (f0\<lparr>rf_Reviewers := reviewers, rf_CCs := ccs\<rparr>)))
              (\<lambda>r. case r of
                      ErrorResponse err msg \<Rightarrow>
                        if err \<noteq> []
                        then ret (Inl (''Failed to create the differential revision: '' @ msg))
                        else ret (Inr ())
                    | _ \<Rightarrow> panic malformed))) st = (Inr x, st')"
    using run unfolding createDifferentialRevision_def t option.case .
  from andThen_Inr [OF run'] obtain reviewers st1 where
    r1: "resolveUsers w (req_Reviewers req) (rf_Reviewers f0) st = (Inr reviewers, st1)"
    and r2: "andThen (if Requester req \<noteq> [] then resolveUsers w [Requester req] (rf_CCs f0)
                  else ret (rf_CCs f0))
           (\<lambda>ccs. andThen (runArcCommandOrDie w
                     (DifferentialCreateRevision diffID
                        (f0\<lparr>rf_Reviewers := reviewers, rf_CCs := ccs\<rparr>)))
              (\<lambda>r. case r of
                      ErrorResponse err msg \<Rightarrow>
                        if err \<noteq> []
                        then ret (Inl (''Failed to create the differential revision: '' @ msg))
                        else ret (Inr ())
                    | _ \<Rightarrow> panic malformed)) st1 = (Inr x, st')"
    by auto
  from andThen_Inr [OF r2] obtain ccs st2 where
    r2': "(if Requester req \<noteq> [] then resolveUsers w [Requester req] (rf_CCs f0)
           else ret (rf_CCs f0)) st1 = (Inr ccs, st2)"
    and r3: "andThen (runArcCommandOrDie w
                     (DifferentialCreateRevision diffID
                        (f0\<lparr>rf_Reviewers := reviewers, rf_CCs := ccs\<rparr>)))
              (\<lambda>r. case r of
                      ErrorResponse err msg \<Rightarrow>
                        if err \<noteq> []
                        then ret (Inl (''Failed to create the differential revision: '' @ msg))
                        else ret (Inr ())
                    | _ \<Rightarrow> panic malformed) st2 = (Inr x, st')"
    by auto
  from andThen_Inr [OF r3] obtain r st3 where
    r4: "runArcCommandOrDie w (DifferentialCreateRevision diffID
            (f0\<lparr>rf_Reviewers := reviewers, rf_CCs := ccs\<rparr>)) st2 = (Inr r, st3)"
    and r5: "(case r of
                ErrorResponse err msg \<Rightarrow>
                  if err \<noteq> []
                  then ret (Inl (''Failed to create the differential revision: '' @ msg))
                  else ret (Inr ())
              | _ \<Rightarrow> panic malformed) st3 = (Inr x, st')"
    by auto
  from r5 have "st' = st3"
    by (cases r) (auto simp: ret_def panic_def split: if_splits)
  with runArc_Inr [OF r4] have e3: "conduit st' = conduit st2 @ [DifferentialCreateRevision diffID
            (f0\<lparr>rf_Reviewers := reviewers, rf_CCs := ccs\<rparr>)]" by simp
  have "sendsFrom (conduit st) (\<lambda>_. True) (\<lambda>_. True)
          (resolveUsers w (req_Reviewers req) (rf_Reviewers f0))"
    by (rule sendsFrom_resolveUsers) simp
  from sendsFrom_extends [OF this r1] obtain cs1 where e1: "conduit st1 = conduit st @ cs1" ..
  have "sendsFrom (conduit st1) (\<lambda>_. True) (\<lambda>_. True)
          (if Requester req \<noteq> [] then resolveUsers w [Requester req] (rf_CCs f0)
           else ret (rf_CCs f0))"
    by (auto simp del: resolveUsers.simps intro: sendsFrom_ret sendsFrom_resolveUsers)
  from sendsFrom_extends [OF this r2'] obtain cs2 where e2: "conduit st2 = conduit st1 @ cs2" ..
  from e1 e2 e3 have "conduit st' = conduit st @ (cs1 @ cs2) @ [DifferentialCreateRevision diffID
            (f0\<lparr>rf_Reviewers := reviewers, rf_CCs := ccs\<rparr>)]" by simp
  then show ?thesis by (intro exI)
qed

lemma createDifferentialRevision_fields:
  assumes t: "titleAndSummary (req_Description req) = Some f0"
    and run: "createDifferentialRevision w revision diffID req st = (res, st')"
  shows "list_all (carries f0) (newCalls st st')
         \<and> ((\<exists>x. res = Inr x)
            \<longrightarrow> newCalls st st' \<noteq> []
                \<and> (\<exists>f. last (newCalls st st') = DifferentialCreateRevision diffID f))"
proof -
  have "sendsFrom (conduit st) (carries f0) (\<lambda>_. True)
          (createDifferentialRevision w revision diffID req)"
  proof (rule sendsFrom_createDifferentialRevision [OF t])
    show "\<And>n. carries f0 (QueryUser n)" by simp
    show "\<And>f. rf_Title f = rf_Title f0 \<Longrightarrow> rf_Summary f = rf_Summary f0
             \<Longrightarrow> carries f0 (DifferentialCreateRevision diffID f)" by simp
  qed
  from sendsFrom_newCalls [OF this run] have a: "list_all (carries f0) (newCalls st st')"
    by (rule conjunct1 [OF conjunct2])
  have b: "(\<exists>x. res = Inr x)
            \<longrightarrow> newCalls st st' \<noteq> []
                \<and> (\<exists>f. last (newCalls st st') = DifferentialCreateRevision diffID f)"
  proof
    assume "\<exists>x. res = Inr x"
    then obtain x where "res = Inr x" ..
    with run have "createDifferentialRevision w revision diffID req st = (Inr x, st')" by simp
    from createDifferentialRevision_last [OF t this] obtain before reviewers ccs where
      "conduit st' = conduit st @ before @ [DifferentialCreateRevision diffID
                (f0\<lparr>rf_Reviewers := reviewers, rf_CCs := ccs\<rparr>)]"
      by (elim exE)
    then have "newCalls st st' = before @ [DifferentialCreateRevision diffID
                (f0\<lparr>rf_Reviewers := reviewers, rf_CCs := ccs\<rparr>)]"
      by (simp add: newCalls_def)
    then show "newCalls st st' \<noteq> []
                \<and> (\<exists>f. last (newCalls st st') = DifferentialCreateRevision diffID f)"
      by simp
  qed
  from a b show ?thesis by (rule conjI)
qed


lemma firstLine_longLine: "firstLine longLine = longLine"
  by (simp add: firstLine_def longLine_def newline_def)

lemma create_run:
  assumes "titleAndSummary (req_Description (someRequest\<lparr>req_Description := d\<rparr>))
             = Some \<lparr> rf_Title = title, rf_Summary = summary, rf_Reviewers = [], rf_CCs = [] \<rparr>"
  shows "createDifferentialRevision (steadyWorld []) ''R'' 2 (someRequest\<lparr>req_Description := d\<rparr>)
           start = (Inr (Inr ()), afterCreate title summary)"
  unfolding createDifferentialRevision_def assms option.case
  by (simp add: someRequest_def andThen_def queryUser_def runArcCommandOrDie_def
      steadyWorld_def steadyRespond_def ret_def start_def afterCreate_def resolvedFields_def)

lemma long_run:
  "createDifferentialRevision (steadyWorld []) ''R'' 2 longRequest start
     = (Inr (Inr ()), afterCreate (replicate 252 (CHR ''a'') @ ''...'') longLine)"
proof -
  have "256 < length (firstLine longLine)"
    unfolding firstLine_longLine by (simp add: longLine_def)
  from title_long [OF this] have "titleAndSummary longLine
     = Some \<lparr> rf_Title = replicate 252 (CHR ''a'') @ ''...'', rf_Summary = longLine,
              rf_Reviewers = [], rf_CCs = [] \<rparr>"
    unfolding firstLine_longLine by (simp add: longLine_def)
  then show ?thesis unfolding longRequest_def by (intro create_run) simp
qed

lemma newCalls_afterCreate:
  "newCalls start (afterCreate title summary)
     = [QueryUser ''bob'', QueryUser ''alice'',
        DifferentialCreateRevision 2 (resolvedFields title summary)]"
  by (simp add: newCalls_def start_def afterCreate_def)

text \<open>
  C6, as amended. When the first line of the description has more than 256 characters,
  every revision that \<open>createDifferentialRevision\<close> asks for has as title the first 252
  characters of that line followed by the three dots, 255 characters in all, and as summary
  the whole description, which is not empty; and when the function returns, the last call
  it sent asks for the revision.
\<close>

theorem long_title_truncated:
  assumes long: "256 < length (firstLine (req_Description req))"
    and run: "createDifferentialRevision w revision diffID req st = (res, st')"
  shows "list_all (carries \<lparr> rf_Title = take 252 (firstLine (req_Description req)) @ ''...'',
                             rf_Summary = req_Description req,
                             rf_Reviewers = [], rf_CCs = [] \<rparr>) (newCalls st st')
         \<and> length (take 252 (firstLine (req_Description req)) @ ''...'') = 255
         \<and> req_Description req \<noteq> []
         \<and> ((\<exists>x. res = Inr x)
            \<longrightarrow> newCalls st st' \<noteq> []
                \<and> (\<exists>f. last (newCalls st st') = DifferentialCreateRevision diffID f))"
proof -
  note t = title_long [OF long]
  from t have t1: "titleAndSummary (req_Description req) =
     Some \<lparr> rf_Title = take 252 (firstLine (req_Description req)) @ ''...'',
            rf_Summary = req_Description req, rf_Reviewers = [], rf_CCs = [] \<rparr>"
    by (rule conjunct1)
  from t have t2: "length (take 252 (firstLine (req_Description req)) @ ''...'') = 255
     \<and> req_Description req \<noteq> []" by (rule conjunct2)
  from createDifferentialRevision_fields [OF t1 run] t2 show ?thesis by simp
qed

theorem long_title_truncated_witness:
  "256 < length (firstLine (req_Description longRequest))
   \<and> createDifferentialRevision (steadyWorld []) ''R'' 2 longRequest start
       = (Inr (Inr ()), afterCreate (replicate 252 (CHR ''a'') @ ''...'') longLine)
   \<and> list_all (carries \<lparr> rf_Title = take 252 (firstLine (req_Description longRequest)) @ ''...'',
                         rf_Summary = req_Description longRequest,
                         rf_Reviewers = [], rf_CCs = [] \<rparr>)
        (newCalls start (afterCreate (replicate 252 (CHR ''a'') @ ''...'') longLine))
   \<and> last (newCalls start (afterCreate (replicate 252 (CHR ''a'') @ ''...'') longLine))
       = DifferentialCreateRevision 2 (resolvedFields (replicate 252 (CHR ''a'') @ ''...'') longLine)"
proof -
  have long: "256 < length (firstLine (req_Description longRequest))"
    by (simp add: longRequest_def firstLine_longLine) (simp add: longLine_def)
  from long_title_truncated [OF long long_run] long long_run show ?thesis
    by (simp add: newCalls_afterCreate)
qed

text \<open>
  C6 as stated fails: for a description of one line of 257 characters the title that is
  sent has 255 characters, not 256.
\<close>

theorem long_title_counterexample:
  "256 < length (firstLine (req_Description longRequest))
   \<and> createDifferentialRevision (steadyWorld []) ''R'' 2 longRequest start
       = (Inr (Inr ()), afterCreate (replicate 252 (CHR ''a'') @ ''...'') longLine)
   \<and> newCalls start (afterCreate (replicate 252 (CHR ''a'') @ ''...'') longLine)
       = [QueryUser ''bob'', QueryUser ''alice'',
          DifferentialCreateRevision 2 (resolvedFields (replicate 252 (CHR ''a'') @ ''...'') longLine)]
   \<and> length (rf_Title (resolvedFields (replicate 252 (CHR ''a'') @ ''...'') longLine)) \<noteq> 256"
proof -
  have long: "256 < length (firstLine (req_Description longRequest))"
    by (simp add: longRequest_def firstLine_longLine) (simp add: longLine_def)
  have "length (rf_Title (resolvedFields (replicate 252 (CHR ''a'') @ ''...'') longLine)) \<noteq> 256"
    by (simp add: resolvedFields_def)
  with long long_run newCalls_afterCreate show ?thesis by simp
qed

text \<open>
  C7, as amended. When the first line of the description has at most 256 characters, every
  revision that \<open>createDifferentialRevision\<close> asks for has that line as title; its summary
  is empty when the description has no further line, and is the whole description when it
  has one.
\<close>

theorem short_title_summary:
  assumes short: "length (firstLine (req_Description req)) \<le> 256"
    and run: "createDifferentialRevision w revision diffID req st = (res, st')"
  shows "list_all (carries \<lparr> rf_Title = firstLine (req_Description req),
                             rf_Summary = (if newline \<in> set (req_Description req)
                                           then req_Description req else []),
                             rf_Reviewers = [], rf_CCs = [] \<rparr>) (newCalls st st')
         \<and> ((\<exists>x. res = Inr x)
            \<longrightarrow> newCalls st st' \<noteq> []
                \<and> (\<exists>f. last (newCalls st st') = DifferentialCreateRevision diffID f))"
  by (rule createDifferentialRevision_fields [OF title_short [OF short] run])

lemma firstLine_short: "firstLine ''Fix bug'' = ''Fix bug''"
  by (simp add: firstLine_def newline_def)

lemma firstLine_twoLines: "firstLine twoLines = ''Fix bug''"
  by (simp add: firstLine_def newline_def twoLines_def)

lemma short_run:
  "createDifferentialRevision (steadyWorld []) ''R'' 2 someRequest start
     = (Inr (Inr ()), afterCreate ''Fix bug'' [])"
proof -
  have "length (firstLine ''Fix bug'') \<le> 256" unfolding firstLine_short by simp
  from title_short [OF this] have "titleAndSummary ''Fix bug''
     = Some \<lparr> rf_Title = ''Fix bug'', rf_Summary = [], rf_Reviewers = [], rf_CCs = [] \<rparr>"
    unfolding firstLine_short by (simp add: newline_def)
  then have "createDifferentialRevision (steadyWorld []) ''R'' 2
      (someRequest\<lparr>req_Description := ''Fix bug''\<rparr>) start
     = (Inr (Inr ()), afterCreate ''Fix bug'' [])"
    by (intro create_run) simp
  then show ?thesis by (simp add: someRequest_def)
qed

lemma twoLines_run:
  "createDifferentialRevision (steadyWorld []) ''R'' 2 twoLinesRequest start
     = (Inr (Inr ()), afterCreate ''Fix bug'' twoLines)"
proof -
  have "length (firstLine twoLines) \<le> 256" unfolding firstLine_twoLines by simp
  from title_short [OF this] have "titleAndSummary twoLines
     = Some \<lparr> rf_Title = ''Fix bug'', rf_Summary = twoLines, rf_Reviewers = [], rf_CCs = [] \<rparr>"
    unfolding firstLine_twoLines by (simp add: twoLines_def)
  then show ?thesis unfolding twoLinesRequest_def by (intro create_run) simp
qed

theorem short_title_summary_witness:
  "length (firstLine (req_Description someRequest)) \<le> 256
   \<and> createDifferentialRevision (steadyWorld []) ''R'' 2 someRequest start
       = (Inr (Inr ()), afterCreate ''Fix bug'' [])
   \<and> list_all (carries \<lparr> rf_Title = firstLine (req_Description someRequest),
                         rf_Summary = (if newline \<in> set (req_Description someRequest)
                                       then req_Description someRequest else []),
                         rf_Reviewers = [], rf_CCs = [] \<rparr>)
        (newCalls start (afterCreate ''Fix bug'' []))
   \<and> last (newCalls start (afterCreate ''Fix bug'' []))
       = DifferentialCreateRevision 2 (resolvedFields ''Fix bug'' [])"
proof -
  have short: "length (firstLine (req_Description someRequest)) \<le> 256"
    by (simp add: someRequest_def firstLine_short)
  from short_title_summary [OF short short_run] short short_run show ?thesis
    by (simp add: newCalls_afterCreate)
qed

text \<open>
  C7 as stated fails: the description of two lines \<open>Fix bug\<close>, \<open>Details here\<close> has a first
  line of 7 characters, and the revision is asked for with the whole description as summary.
\<close>

theorem short_title_counterexample:
  "length (firstLine (req_Description twoLinesRequest)) \<le> 256
   \<and> createDifferentialRevision (steadyWorld []) ''R'' 2 twoLinesRequest start
       = (Inr (Inr ()), afterCreate ''Fix bug'' twoLines)
   \<and> newCalls start (afterCreate ''Fix bug'' twoLines)
       = [QueryUser ''bob'', QueryUser ''alice'',
          DifferentialCreateRevision 2 (resolvedFields ''Fix bug'' twoLines)]
   \<and> rf_Summary (resolvedFields ''Fix bug'' twoLines) \<noteq> []"
proof -
  have short: "length (firstLine (req_Description twoLinesRequest)) \<le> 256"
    by (simp add: twoLinesRequest_def firstLine_twoLines)
  have "rf_Summary (resolvedFields ''Fix bug'' twoLines) \<noteq> []"
    by (simp add: resolvedFields_def twoLines_def)
  with short twoLines_run newCalls_afterCreate show ?thesis by simp
qed


section \<open>Comment requests\<close>

lemma inlineRequestsFor_unanchored:
  "unanchored commitToDiffMap t
     \<Longrightarrow> inlineRequestsFor quote d existing commitToDiffMap t = []"
  by (auto simp: unanchored_def inlineRequestsFor_def lookupDiff_def Let_def
      split: option.splits)

lemma thread_requests_fields:
  "r \<in> set (buildCommentRequestsForThread quote d existing t diffID path lineNumber)
     \<Longrightarrow> ci_DiffID r = diffID \<and> ci_FilePath r = path \<and> ci_RevisionID r = ID d"
proof (induction t)
  case (CommentThread h c children)
  then show ?case by (auto split: if_splits)
qed

lemma inlineRequestsFor_anchored:
  assumes "r \<in> set (inlineRequestsFor quote d existing commitToDiffMap t)"
  shows "ci_FilePath r \<noteq> [] \<and> ci_DiffID r \<noteq> []
         \<and> (\<exists>loc. Location (Comment t) = Some loc \<and> Path loc = ci_FilePath r
                   \<and> map_of commitToDiffMap (Commit loc) = Some (ci_DiffID r))"
proof (cases "Location (Comment t)")
  case None
  with assms show ?thesis by (simp add: inlineRequestsFor_def)
next
  case (Some loc)
  show ?thesis
  proof (cases "Path loc \<noteq> [] \<and> lookupDiff commitToDiffMap (Commit loc) \<noteq> []")
    case False
    with assms Some show ?thesis by (auto simp: inlineRequestsFor_def Let_def)
  next
    case True
    with assms Some have "r \<in> set (buildCommentRequestsForThread quote d existing t
        (lookupDiff commitToDiffMap (Commit loc)) (Path loc)
        (case Range loc of None \<Rightarrow> 1 | Some rg \<Rightarrow> StartLine rg))"
      by (simp add: inlineRequestsFor_def Let_def)
    from thread_requests_fields [OF this]
    have f: "ci_DiffID r = lookupDiff commitToDiffMap (Commit loc)" "ci_FilePath r = Path loc"
      by simp_all
    from True have "map_of commitToDiffMap (Commit loc)
        = Some (lookupDiff commitToDiffMap (Commit loc))"
      by (auto simp: lookupDiff_def split: option.splits)
    with True f Some show ?thesis by simp
  qed
qed

lemma buildCommentRequests_fst:
  "fst (buildCommentRequests quote d threads existing commitToDiffMap)
     = concat (map (inlineRequestsFor quote d existing commitToDiffMap) threads)"
  by (simp add: buildCommentRequests_def Let_def)

lemma buildCommentRequests_snd:
  "snd (buildCommentRequests quote d threads existing commitToDiffMap)
     = (if fst (buildCommentRequests quote d threads existing commitToDiffMap) \<noteq> []
        then [\<lparr> cc_RevisionID = ID d, cc_Message = [], cc_Action = ''comment'',
                cc_AttachInlines = True \<rparr>]
        else [])"
  by (simp add: buildCommentRequests_def Let_def)

text \<open>
  C10. A thread whose root comment has no location, or an empty file path, or a commit that
  the map from commits to diffs does not have, adds no inline request: the inline requests
  are the same with and without it. Every inline request that is built has a file path and a
  diff, those of the root comment of one of the threads, and its diff is the one that the
  map gives for the commit of that comment. There is one \<open>comment\<close> request that attaches
  the inline requests when at least one inline request was built, and none otherwise.
\<close>

theorem only_anchored_threads_mirrored:
  "(unanchored commitToDiffMap t \<longrightarrow>
      inlineRequestsFor quote d existing commitToDiffMap t = []
      \<and> fst (buildCommentRequests quote d (before @ t # after) existing commitToDiffMap)
        = fst (buildCommentRequests quote d (before @ after) existing commitToDiffMap))
   \<and> (\<forall>r \<in> set (fst (buildCommentRequests quote d threads existing commitToDiffMap)).
        ci_FilePath r \<noteq> [] \<and> ci_DiffID r \<noteq> []
        \<and> (\<exists>t' \<in> set threads. \<exists>loc. Location (Comment t') = Some loc
              \<and> Path loc = ci_FilePath r
              \<and> map_of commitToDiffMap (Commit loc) = Some (ci_DiffID r)))
   \<and> snd (buildCommentRequests quote d threads existing commitToDiffMap)
     = (if fst (buildCommentRequests quote d threads existing commitToDiffMap) \<noteq> []
        then [\<lparr> cc_RevisionID = ID d, cc_Message = [], cc_Action = ''comment'',
                cc_AttachInlines = True \<rparr>]
        else [])"
proof (intro conjI impI ballI)
  assume u: "unanchored commitToDiffMap t"
  then show e: "inlineRequestsFor quote d existing commitToDiffMap t = []"
    by (rule inlineRequestsFor_unanchored)
  show "fst (buildCommentRequests quote d (before @ t # after) existing commitToDiffMap)
        = fst (buildCommentRequests quote d (before @ after) existing commitToDiffMap)"
    unfolding buildCommentRequests_fst by (simp add: e)
next
  fix r
  assume "r \<in> set (fst (buildCommentRequests quote d threads existing commitToDiffMap))"
  then obtain t' where t': "t' \<in> set threads"
    and r: "r \<in> set (inlineRequestsFor quote d existing commitToDiffMap t')"
    unfolding buildCommentRequests_fst by auto
  note a = inlineRequestsFor_anchored [OF r]
  from a show "ci_FilePath r \<noteq> []" by (rule conjunct1)
  from a show "ci_DiffID r \<noteq> []" by simp
  from a t' show "\<exists>t' \<in> set threads. \<exists>loc. Location (Comment t') = Some loc
              \<and> Path loc = ci_FilePath r
              \<and> map_of commitToDiffMap (Commit loc) = Some (ci_DiffID r)"
    by (intro bexI [of _ t']) simp_all
next
  show "snd (buildCommentRequests quote d threads existing commitToDiffMap)
     = (if fst (buildCommentRequests quote d threads existing commitToDiffMap) \<noteq> []
        then [\<lparr> cc_RevisionID = ID d, cc_Message = [], cc_Action = ''comment'',
                cc_AttachInlines = True \<rparr>]
        else [])"
    by (rule buildCommentRequests_snd)
qed

lemma example_requests:
  "buildCommentRequests plainQuote openRevision [wholeReviewThread, fileThread] [fileComment]
      [(''H'', ''1'')]
     = ([\<lparr> ci_RevisionID = ''7'', ci_DiffID = ''1'', ci_FilePath = ''hello.txt'',
            ci_LineNumber = 42, ci_Content = plainQuote replyComment, ci_IsNewFile = 1 \<rparr>],
        [\<lparr> cc_RevisionID = ''7'', cc_Message = [], cc_Action = ''comment'',
            cc_AttachInlines = True \<rparr>])"
  by (simp add: buildCommentRequests_def inlineRequestsFor_def lookupDiff_def Let_def
      wholeReviewThread_def fileThread_def wholeReviewComment_def fileComment_def
      replyComment_def openRevision_def Overlaps_def sameResolved_def)

theorem only_anchored_threads_mirrored_witness:
  "unanchored [(''H'', ''1'')] wholeReviewThread
   \<and> inlineRequestsFor plainQuote openRevision [fileComment] [(''H'', ''1'')] wholeReviewThread = []
   \<and> fst (buildCommentRequests plainQuote openRevision ([] @ wholeReviewThread # [fileThread])
            [fileComment] [(''H'', ''1'')])
     = fst (buildCommentRequests plainQuote openRevision ([] @ [fileThread])
            [fileComment] [(''H'', ''1'')])
   \<and> buildCommentRequests plainQuote openRevision [wholeReviewThread, fileThread] [fileComment]
        [(''H'', ''1'')]
     = ([\<lparr> ci_RevisionID = ''7'', ci_DiffID = ''1'', ci_FilePath = ''hello.txt'',
            ci_LineNumber = 42, ci_Content = plainQuote replyComment, ci_IsNewFile = 1 \<rparr>],
        [\<lparr> cc_RevisionID = ''7'', cc_Message = [], cc_Action = ''comment'',
            cc_AttachInlines = True \<rparr>])"
proof -
  have u: "unanchored [(''H'', ''1'')] wholeReviewThread"
    by (simp add: unanchored_def wholeReviewThread_def wholeReviewComment_def)
  from only_anchored_threads_mirrored
    [of "[(''H'', ''1'')]" wholeReviewThread plainQuote openRevision "[fileComment]" "[]"
        "[fileThread]" "[wholeReviewThread, fileThread]"]
  have "unanchored [(''H'', ''1'')] wholeReviewThread \<longrightarrow>
      inlineRequestsFor plainQuote openRevision [fileComment] [(''H'', ''1'')] wholeReviewThread = []
      \<and> fst (buildCommentRequests plainQuote openRevision ([] @ wholeReviewThread # [fileThread])
            [fileComment] [(''H'', ''1'')])
        = fst (buildCommentRequests plainQuote openRevision ([] @ [fileThread])
            [fileComment] [(''H'', ''1'')])"
    by (rule conjunct1)
  with u example_requests show ?thesis by simp
qed


section \<open>Mirroring into an existing revision\<close>

lemma sendsFrom_post:
  "P c \<Longrightarrow> sendsFrom h P (\<lambda>_. True)
     (andThen (runArcCommandOrDie w c)
        (\<lambda>r. case r of ErrorResponse err msg \<Rightarrow> ret () | _ \<Rightarrow> panic malformed))"
  by (rule sendsFrom_andThen [OF sendsFrom_runArc])
     (auto intro: sendsFrom_ret sendsFrom_panic split: response.splits)

lemma sendsFrom_mirrorCommentsIntoReview:
  assumes reads: "\<And>n. P (ReadDiff n)"
    and props: "\<And>n name data. P (SetDiffProperty n name data)"
    and load: "P (LoadComments (ID d))"
    and posts: "\<And>cs m h'. prefix h h'
        \<Longrightarrow> respond w h' (LoadComments (ID d)) = CommentsResponse cs
        \<Longrightarrow> (\<forall>rq \<in> set (fst (buildCommentRequests (QuoteDescription w) d (Comments r) cs m)).
               P (DifferentialCreateInline rq))
          \<and> (\<forall>rq \<in> set (snd (buildCommentRequests (QuoteDescription w) d (Comments r) cs m)).
               P (DifferentialCreateComment rq))"
  shows "sendsFrom h P (\<lambda>_. True) (mirrorCommentsIntoReview w repo d r)"
  unfolding mirrorCommentsIntoReview_def
proof (rule sendsFrom_andThen [OF sendsFrom_commitMaps [of P h w "Diffs d" "[]" "[]"]])
  show "\<And>n. P (ReadDiff n)" by (rule reads)
next
  fix x :: "(string \<times> string) list \<times> (string \<times> int) list"
  obtain m im where x: "x = (m, im)" by (cases x)
  have tail: "\<And>cs. \<exists>h'. prefix h h' \<and> respond w h' (LoadComments (ID d)) = CommentsResponse cs
      \<Longrightarrow> sendsFrom h P (\<lambda>_. True)
        (case buildCommentRequests (QuoteDescription w) d (Comments r) cs m of
           (inlineRequests, commentRequests) \<Rightarrow>
             andThen
               (forEach inlineRequests
                  (\<lambda>request.
                     andThen (runArcCommandOrDie w (DifferentialCreateInline request))
                       (\<lambda>r. case r of ErrorResponse err msg \<Rightarrow> ret ()
                             | _ \<Rightarrow> panic malformed)))
               (\<lambda>_. forEach commentRequests
                  (\<lambda>request.
                     andThen (runArcCommandOrDie w (DifferentialCreateComment request))
                       (\<lambda>r. case r of ErrorResponse err msg \<Rightarrow> ret ()
                             | _ \<Rightarrow> panic malformed))))"
  proof -
    fix cs
    assume "\<exists>h'. prefix h h' \<and> respond w h' (LoadComments (ID d)) = CommentsResponse cs"
    then obtain h' where "prefix h h'"
      and "respond w h' (LoadComments (ID d)) = CommentsResponse cs" by (elim exE conjE)
    note p = posts [OF this, of m]
    obtain inl cms where b: "buildCommentRequests (QuoteDescription w) d (Comments r) cs m
        = (inl, cms)" by (cases "buildCommentRequests (QuoteDescription w) d (Comments r) cs m")
    from p b have pi: "\<And>rq. rq \<in> set inl \<Longrightarrow> P (DifferentialCreateInline rq)"
      and pc: "\<And>rq. rq \<in> set cms \<Longrightarrow> P (DifferentialCreateComment rq)" by simp_all
    have i: "sendsFrom h P (\<lambda>_. True)
        (forEach inl (\<lambda>request.
            andThen (runArcCommandOrDie w (DifferentialCreateInline request))
              (\<lambda>r. case r of ErrorResponse err msg \<Rightarrow> ret () | _ \<Rightarrow> panic malformed)))"
      by (rule sendsFrom_forEach) (rule sendsFrom_post, rule pi)
    have c: "sendsFrom h P (\<lambda>_. True)
        (forEach cms (\<lambda>request.
            andThen (runArcCommandOrDie w (DifferentialCreateComment request))
              (\<lambda>r. case r of ErrorResponse err msg \<Rightarrow> ret () | _ \<Rightarrow> panic malformed)))"
      by (rule sendsFrom_forEach) (rule sendsFrom_post, rule pc)
    show "sendsFrom h P (\<lambda>_. True)
        (case buildCommentRequests (QuoteDescription w) d (Comments r) cs m of
           (inlineRequests, commentRequests) \<Rightarrow>
             andThen
               (forEach inlineRequests
                  (\<lambda>request.
                     andThen (runArcCommandOrDie w (DifferentialCreateInline request))
                       (\<lambda>r. case r of ErrorResponse err msg \<Rightarrow> ret ()
                             | _ \<Rightarrow> panic malformed)))
               (\<lambda>_. forEach commentRequests
                  (\<lambda>request.
                     andThen (runArcCommandOrDie w (DifferentialCreateComment request))
                       (\<lambda>r. case r of ErrorResponse err msg \<Rightarrow> ret ()
                             | _ \<Rightarrow> panic malformed))))"
      unfolding b prod.case by (rule sendsFrom_andThen [OF i]) (rule c)
  qed
  show "sendsFrom h P (\<lambda>_. True)
     (case x of
        (commitToDiffMap, commitToDiffIDMap) \<Rightarrow>
          andThen (mirrorStatusesForEachCommit w repo commitToDiffIDMap)
            (\<lambda>_. andThen (LoadCommentsOf w d)
               (\<lambda>existingComments.
                  (case buildCommentRequests (QuoteDescription w) d (Comments r)
                          existingComments commitToDiffMap of
                     (inlineRequests, commentRequests) \<Rightarrow>
                       andThen
                         (forEach inlineRequests
                            (\<lambda>request.
                               andThen (runArcCommandOrDie w (DifferentialCreateInline request))
                                 (\<lambda>r. case r of ErrorResponse err msg \<Rightarrow> ret ()
                                       | _ \<Rightarrow> panic malformed)))
                         (\<lambda>_. forEach commentRequests
                            (\<lambda>request.
                               andThen (runArcCommandOrDie w (DifferentialCreateComment request))
                                 (\<lambda>r. case r of ErrorResponse err msg \<Rightarrow> ret ()
                                       | _ \<Rightarrow> panic malformed)))))))"
    unfolding x prod.case
    by (rule sendsFrom_andThen [OF sendsFrom_mirrorStatusesForEachCommit], rule props,
        rule sendsFrom_andThen [OF sendsFrom_LoadCommentsOf], rule load, rule tail)
qed

lemma hasHeadHash_iff:
  "hasHeadHash hashes headCommit \<longleftrightarrow> [commitHashType, headCommit] \<in> set hashes"
proof -
  have "\<And>hp. (length hp = 2 \<and> hp ! 0 = commitHashType \<and> hp ! 1 = headCommit)
          \<longleftrightarrow> hp = [commitHashType, headCommit]"
  proof -
    fix hp :: "string list"
    show "(length hp = 2 \<and> hp ! 0 = commitHashType \<and> hp ! 1 = headCommit)
          \<longleftrightarrow> hp = [commitHashType, headCommit]"
      by (cases hp; cases "tl hp") (auto simp: length_Suc_conv)
  qed
  then show ?thesis by (simp add: hasHeadHash_def list_ex_iff)
qed

lemma sendsFrom_updateReviewDiffs_head:
  assumes head: "isClosed d \<or> hasHeadHash (Hashes d) headCommit"
    and reads: "\<And>n. P (ReadDiff n)"
    and props: "\<And>n name data. P (SetDiffProperty n name data)"
    and load: "P (LoadComments (ID d))"
    and posts: "\<And>cs m h'. prefix h h'
        \<Longrightarrow> respond w h' (LoadComments (ID d)) = CommentsResponse cs
        \<Longrightarrow> (\<forall>rq \<in> set (fst (buildCommentRequests (QuoteDescription w) d (Comments r) cs m)).
               P (DifferentialCreateInline rq))
          \<and> (\<forall>rq \<in> set (snd (buildCommentRequests (QuoteDescription w) d (Comments r) cs m)).
               P (DifferentialCreateComment rq))"
  shows "sendsFrom h P (\<lambda>_. True) (updateReviewDiffs w repo d headCommit req r)"
proof (cases "isClosed d")
  case True
  then show ?thesis by (simp add: updateReviewDiffs_def sendsFrom_ret)
next
  case False
  with head have hh: "hasHeadHash (Hashes d) headCommit" by simp
  have m: "sendsFrom h P (\<lambda>_. True) (mirrorCommentsIntoReview w repo d r)"
    by (rule sendsFrom_mirrorCommentsIntoReview [OF reads props load posts])
  show ?thesis
  proof (cases "MergeBase repo (TargetRef req) headCommit")
    case (Inl err)
    with False show ?thesis by (simp add: updateReviewDiffs_def sendsFrom_panic)
  next
    case (Inr mergeBase)
    with False hh m show ?thesis by (simp add: updateReviewDiffs_def)
  qed
qed

lemma isMirroring_not_touches: "isMirroring c \<Longrightarrow> \<not> touchesRevision c"
  by (cases c) simp_all

lemma Atoi_1: "Atoi ''1'' = Some 1"
  by (simp add: Atoi_def digitVal_def)

lemma Atoi_7: "Atoi ''7'' = Some 7"
  by (simp add: Atoi_def digitVal_def)

lemma mirror_run:
  "mirrorCommentsIntoReview (steadyWorld []) someRepo openRevision pendingReview (afterCalls cs)
     = (Inr (), afterCalls (cs @ mirroringCalls))"
  by (simp add: mirrorCommentsIntoReview_def openRevision_def findCommitForDiff_def Atoi_1
      andThen_def runArcCommandOrDie_def steadyWorld_def steadyRespond_def ret_def
      mirrorStatusesForEachCommit_def someRepo_def reportUnitResults_def
      generateUnitDiffProperty_def passingReport_def setDiffProperty_def
      LoadCommentsOf_def pendingReview_def buildCommentRequests_def afterCalls_def start_def
      mirroringCalls_def unitDiffPropertyName_def)

lemma update_run:
  "updateReviewDiffs (steadyWorld []) someRepo openRevision ''H'' someRequest pendingReview
      (afterCalls cs)
     = (Inr (), afterCalls (cs @ mirroringCalls))"
proof -
  have "\<not> isClosed openRevision"
    by (simp add: isClosed_def openRevision_def differentialClosedStatus_def
        differentialAbandonedStatus_def)
  moreover have "hasHeadHash (Hashes openRevision) ''H''"
    by (simp add: hasHeadHash_iff openRevision_def commitHashType_def)
  moreover have "MergeBase someRepo (TargetRef someRequest) ''H'' = Inr ''B''"
    by (simp add: someRepo_def)
  ultimately show ?thesis by (simp add: updateReviewDiffs_def mirror_run)
qed

lemma newCalls_afterCalls: "newCalls (afterCalls cs) (afterCalls (cs @ cs')) = cs'"
  by (simp add: newCalls_def afterCalls_def)

section \<open>Ensuring that the request exists\<close>

lemma EnsureRequestExists_eq:
  "EnsureRequestExists w repo review st =
     (if closedRevisionsMap st (Revision review) then (Inr (), st)
      else andThen (listDifferentialReviewsOrDie w (Revision review))
             (\<lambda>existingReviews.
                if Submitted review
                then andThen (closeOpenReviews w existingReviews)
                       (\<lambda>_. markClosed (Revision review))
                else pendingReviewBranch w repo review existingReviews) st)"
  unfolding EnsureRequestExists_def pendingReviewBranch_def closeOpenReviews_def Let_def
  by (simp add: ret_def)

lemma andThen_cases:
  assumes "andThen m f st = (r, st')"
  obtains (died) msg where "m st = (Inl msg, st')" and "r = Inl msg"
        | (went) x st1 where "m st = (Inr x, st1)" and "f x st1 = (r, st')"
proof -
  obtain r1 st1 where m1: "m st = (r1, st1)" by (cases "m st")
  show thesis
  proof (cases r1)
    case (Inl msg)
    with assms m1 have "m st = (Inl msg, st')" and "r = Inl msg"
      by (simp_all add: andThen_def)
    then show thesis by (rule died)
  next
    case (Inr x)
    with assms m1 have "m st = (Inr x, st1)" and "f x st1 = (r, st')"
      by (simp_all add: andThen_def)
    then show thesis by (rule went)
  qed
qed

lemma list_run:
  assumes "listDifferentialReviewsOrDie w revision st = (r, st')"
  shows "st' = st\<lparr>conduit := conduit st @ [DifferentialQuery [[commitHashType, revision]] []]\<rparr>
         \<and> (\<forall>existing. r = Inr existing
              \<longrightarrow> respond w (conduit st) (DifferentialQuery [[commitHashType, revision]] [])
                  = QueryResponse existing)"
  using assms
  by (cases "respond w (conduit st) (DifferentialQuery [[commitHashType, revision]] [])")
     (auto simp: listDifferentialReviewsOrDie_def andThen_def runArcCommandOrDie_def
        ret_def panic_def)

lemma close_Inr:
  assumes "close w d st = (Inr u, st')"
  shows "\<exists>n. Atoi (ID d) = Some n \<and> st' = st\<lparr>conduit := conduit st @ [DifferentialClose n]\<rparr>"
proof (cases "Atoi (ID d)")
  case None
  with assms show ?thesis by (simp add: close_def panic_def)
next
  case (Some n)
  with assms have "st' = st\<lparr>conduit := conduit st @ [DifferentialClose n]\<rparr>"
    by (cases "respond w (conduit st) (DifferentialClose n)")
       (auto simp: close_def andThen_def runArcCommandOrDie_def ret_def panic_def)
  with Some show ?thesis by simp
qed

lemma closeOpenReviews_Inr:
  "closeOpenReviews w existing st = (Inr u, st')
     \<Longrightarrow> st' = st\<lparr>conduit := conduit st @ closeCallsFor existing\<rparr>
         \<and> (\<forall>d \<in> set existing. \<not> isClosed d \<longrightarrow> Atoi (ID d) \<noteq> None)"
proof (induction existing arbitrary: st)
  case Nil
  then show ?case by (simp add: closeOpenReviews_def closeCallsFor_def ret_def)
next
  case (Cons d ds)
  from Cons.prems have run: "andThen (if \<not> isClosed d then close w d else ret ())
      (\<lambda>_. closeOpenReviews w ds) st = (Inr u, st')"
    by (simp add: closeOpenReviews_def)
  from andThen_Inr [OF run] obtain x st1 where
    one: "(if \<not> isClosed d then close w d else ret ()) st = (Inr x, st1)"
    and rest: "closeOpenReviews w ds st1 = (Inr u, st')" by auto
  note ih = Cons.IH [OF rest]
  show ?case
  proof (cases "isClosed d")
    case True
    with one have "st1 = st" by (simp add: ret_def)
    with ih True show ?thesis by (simp add: closeCallsFor_def)
  next
    case False
    with one have "close w d st = (Inr x, st1)" by simp
    from close_Inr [OF this] obtain n where n: "Atoi (ID d) = Some n"
      and st1: "st1 = st\<lparr>conduit := conduit st @ [DifferentialClose n]\<rparr>" by auto
    with ih False show ?thesis by (simp add: closeCallsFor_def)
  qed
qed

lemma closeCallsFor_count:
  "\<forall>d \<in> set existing. \<not> isClosed d \<longrightarrow> Atoi (ID d) \<noteq> None
     \<Longrightarrow> length (filter isClose (closeCallsFor existing))
         = length (filter (\<lambda>d. \<not> isClosed d) existing)
       \<and> list_all isClose (closeCallsFor existing)"
  by (induction existing) (auto simp: closeCallsFor_def)

lemma markClosed_run:
  "markClosed revision st = (r, st')
     \<Longrightarrow> r = Inr () \<and> conduit st' = conduit st
         \<and> closedRevisionsMap st' = (closedRevisionsMap st)(revision := True)"
  by (auto simp: markClosed_def)

text \<open>A submitted review that is handled and whose handling returns: the calls and the map.\<close>

lemma submitted_run:
  assumes sub: "Submitted review" and fresh: "\<not> closedRevisionsMap st (Revision review)"
    and run: "EnsureRequestExists w repo review st = (Inr u, st1)"
  shows "\<exists>existing.
           respond w (conduit st) (DifferentialQuery [[commitHashType, Revision review]] [])
             = QueryResponse existing
           \<and> conduit st1 = conduit st
               @ DifferentialQuery [[commitHashType, Revision review]] [] # closeCallsFor existing
           \<and> (\<forall>d \<in> set existing. \<not> isClosed d \<longrightarrow> Atoi (ID d) \<noteq> None)
           \<and> closedRevisionsMap st1 = (closedRevisionsMap st)(Revision review := True)"
proof -
  from run sub fresh have run': "andThen (listDifferentialReviewsOrDie w (Revision review))
      (\<lambda>existingReviews. andThen (closeOpenReviews w existingReviews)
                            (\<lambda>_. markClosed (Revision review))) st = (Inr u, st1)"
    by (simp add: EnsureRequestExists_eq)
  from andThen_Inr [OF run'] obtain existing sta where
    l: "listDifferentialReviewsOrDie w (Revision review) st = (Inr existing, sta)"
    and r2: "andThen (closeOpenReviews w existing) (\<lambda>_. markClosed (Revision review)) sta
               = (Inr u, st1)" by auto
  from andThen_Inr [OF r2] obtain x stb where
    c: "closeOpenReviews w existing sta = (Inr x, stb)"
    and m: "markClosed (Revision review) stb = (Inr u, st1)" by auto
  from list_run [OF l] have sta: "sta = st\<lparr>conduit := conduit st
        @ [DifferentialQuery [[commitHashType, Revision review]] []]\<rparr>"
    and resp: "respond w (conduit st) (DifferentialQuery [[commitHashType, Revision review]] [])
                = QueryResponse existing" by simp_all
  from closeOpenReviews_Inr [OF c] have stb: "stb = sta\<lparr>conduit := conduit sta
        @ closeCallsFor existing\<rparr>"
    and ids: "\<forall>d \<in> set existing. \<not> isClosed d \<longrightarrow> Atoi (ID d) \<noteq> None" by simp_all
  from markClosed_run [OF m] have "conduit st1 = conduit stb"
    and "closedRevisionsMap st1 = (closedRevisionsMap stb)(Revision review := True)"
    by simp_all
  with sta stb have "conduit st1 = conduit st
       @ DifferentialQuery [[commitHashType, Revision review]] [] # closeCallsFor existing"
    and "closedRevisionsMap st1 = (closedRevisionsMap st)(Revision review := True)"
    by simp_all
  with resp ids show ?thesis by (intro exI [of _ existing]) simp
qed

lemma ensure_cached:
  "closedRevisionsMap st (Revision review)
     \<Longrightarrow> EnsureRequestExists w repo review st = (Inr (), st)"
  by (simp add: EnsureRequestExists_eq)


lemma sendsFrom_update_call:
  "sendsFrom h (\<lambda>_. True) (\<lambda>_. True)
     (andThen (runArcCommandOrDie w c)
        (\<lambda>r. case r of
                ErrorResponse err msg \<Rightarrow> if err \<noteq> [] then panic msg else ret ()
              | _ \<Rightarrow> panic malformed))"
proof (rule sendsFrom_andThen [OF sendsFrom_runArc])
  show True ..
next
  fix r :: response
  show "sendsFrom h (\<lambda>_. True) (\<lambda>_. True)
     (case r of
        ErrorResponse err msg \<Rightarrow> if err \<noteq> [] then panic msg else ret ()
      | _ \<Rightarrow> panic malformed)"
    by (cases r) (simp_all add: sendsFrom_ret sendsFrom_panic)
qed

lemma sendsFrom_updateReviewDiffs_any:
  "sendsFrom h (\<lambda>_. True) (\<lambda>_. True) (updateReviewDiffs w repo d headCommit req r)"
proof (cases "isClosed d \<or> hasHeadHash (Hashes d) headCommit")
  case True
  then show ?thesis by (rule sendsFrom_updateReviewDiffs_head) simp_all
next
  case False
  show ?thesis
  proof (cases "MergeBase repo (TargetRef req) headCommit")
    case (Inl err)
    with False show ?thesis by (simp add: updateReviewDiffs_def sendsFrom_panic)
  next
    case (Inr mergeBase)
    have eq: "updateReviewDiffs w repo d headCommit req r =
        andThen (createDifferentialDiff w mergeBase headCommit (Diffs d))
          (\<lambda>df. case df of
                  Inl err \<Rightarrow> panic err
                | Inr None \<Rightarrow> ret ()
                | Inr (Some diffID) \<Rightarrow>
                    andThen (runArcCommandOrDie w
                               (DifferentialUpdateRevision (ID d) (Itoa diffID)))
                      (\<lambda>r. case r of
                              ErrorResponse err msg \<Rightarrow>
                                if err \<noteq> [] then panic msg else ret ()
                            | _ \<Rightarrow> panic malformed))"
      using False Inr by (simp add: updateReviewDiffs_def)
    show ?thesis unfolding eq
    proof (rule sendsFrom_andThen [OF sendsFrom_createDifferentialDiff])
      show True ..
    next
      fix df :: "string + int option"
      show "sendsFrom h (\<lambda>_. True) (\<lambda>_. True)
         (case df of
            Inl err \<Rightarrow> panic err
          | Inr None \<Rightarrow> ret ()
          | Inr (Some diffID) \<Rightarrow>
              andThen (runArcCommandOrDie w (DifferentialUpdateRevision (ID d) (Itoa diffID)))
                (\<lambda>r. case r of
                        ErrorResponse err msg \<Rightarrow> if err \<noteq> [] then panic msg else ret ()
                      | _ \<Rightarrow> panic malformed))"
        by (auto intro: sendsFrom_ret sendsFrom_panic sendsFrom_update_call
            split: sum.splits option.splits)
    qed
  qed
qed

lemma sendsFrom_update_loop:
  "sendsFrom h (\<lambda>_. True) (\<lambda>_. True)
     (forEach existing (\<lambda>d. updateReviewDiffs w repo d headCommit req r))"
  by (rule sendsFrom_forEach) (rule sendsFrom_updateReviewDiffs_any)

lemma sendsFrom_createDifferentialRevision_any:
  "sendsFrom h (\<lambda>_. True) (\<lambda>_. True) (createDifferentialRevision w revision diffID req)"
proof -
  obtain f0 where "titleAndSummary (req_Description req) = Some f0"
    by (simp add: titleAndSummary_eq Let_def)
  then show ?thesis by (rule sendsFrom_createDifferentialRevision) simp_all
qed

lemma sendsFrom_pendingReviewBranch_any:
  "sendsFrom h (\<lambda>_. True) (\<lambda>_. True) (pendingReviewBranch w repo review existing)"
proof -
  have requery: "\<And>head. sendsFrom h (\<lambda>_. True) (\<lambda>_. True)
      (andThen (listDifferentialReviewsOrDie w (Revision review))
         (\<lambda>existingReviews'.
            forEach existingReviews'
              (\<lambda>existing. updateReviewDiffs w repo existing head (Request review) review)))"
    by (rule sendsFrom_andThen [OF sendsFrom_listDifferentialReviewsOrDie])
       (simp_all add: sendsFrom_update_loop)
  have create: "\<And>head diffID. sendsFrom h (\<lambda>_. True) (\<lambda>_. True)
      (andThen (createDifferentialRevision w (Revision review) diffID (Request review))
         (\<lambda>rev. case rev of
             Inl err \<Rightarrow> panic err
           | Inr _ \<Rightarrow>
               andThen (listDifferentialReviewsOrDie w (Revision review))
                 (\<lambda>existingReviews'.
                    forEach existingReviews'
                      (\<lambda>existing. updateReviewDiffs w repo existing head
                         (Request review) review))))"
    by (rule sendsFrom_andThen [OF sendsFrom_createDifferentialRevision_any])
       (auto intro: sendsFrom_panic requery split: sum.splits)
  have fresh: "\<And>base head. sendsFrom h (\<lambda>_. True) (\<lambda>_. True)
      (andThen (createDifferentialDiff w base (Revision review) [])
         (\<lambda>d. case d of
                 Inl err \<Rightarrow> panic err
               | Inr None \<Rightarrow> ret ()
               | Inr (Some diffID) \<Rightarrow>
                   andThen (createDifferentialRevision w (Revision review) diffID
                              (Request review))
                     (\<lambda>rev. case rev of
                         Inl err \<Rightarrow> panic err
                       | Inr _ \<Rightarrow>
                           andThen (listDifferentialReviewsOrDie w (Revision review))
                             (\<lambda>existingReviews'.
                                forEach existingReviews'
                                  (\<lambda>existing. updateReviewDiffs w repo existing head
                                     (Request review) review)))))"
    by (rule sendsFrom_andThen [OF sendsFrom_createDifferentialDiff])
       (auto intro: sendsFrom_panic sendsFrom_ret create split: sum.splits option.splits)
  show ?thesis
    unfolding pendingReviewBranch_def
    by (auto intro: sendsFrom_ret sendsFrom_update_loop fresh split: sum.splits)
qed

text \<open>No run of \<open>EnsureRequestExists\<close> takes a revision out of the map of closed revisions.\<close>

lemma sendsFrom_keeps:
  assumes "sendsFrom [] P Q m" and "m st = (r, st')"
  shows "closedRevisionsMap st' = closedRevisionsMap st"
proof -
  have "prefix [] (conduit st)" by simp
  from sendsFromD [OF assms(1) this assms(2)] show ?thesis by (rule conjunct1)
qed

lemma ensure_keeps:
  assumes run: "EnsureRequestExists w repo review st = (r, st')"
    and closed: "closedRevisionsMap st revision"
  shows "closedRevisionsMap st' revision"
proof (cases "closedRevisionsMap st (Revision review)")
  case True
  with run have "st' = st" by (simp add: ensure_cached)
  with closed show ?thesis by simp
next
  case False
  with run have run': "andThen (listDifferentialReviewsOrDie w (Revision review))
             (\<lambda>existingReviews.
                if Submitted review
                then andThen (closeOpenReviews w existingReviews)
                       (\<lambda>_. markClosed (Revision review))
                else pendingReviewBranch w repo review existingReviews) st = (r, st')"
    by (simp add: EnsureRequestExists_eq)
  have l: "sendsFrom [] (\<lambda>_. True) (\<lambda>_. True) (listDifferentialReviewsOrDie w (Revision review))"
    by (rule sendsFrom_listDifferentialReviewsOrDie) simp
  from run' show ?thesis
  proof (cases rule: andThen_cases)
    case (died msg)
    from sendsFrom_keeps [OF l died(1)] closed show ?thesis by simp
  next
    case (went existing sta)
    from sendsFrom_keeps [OF l went(1)] closed have ca: "closedRevisionsMap sta revision"
      by simp
    show ?thesis
    proof (cases "Submitted review")
      case False
      with went(2) have p: "pendingReviewBranch w repo review existing sta = (r, st')" by simp
      from sendsFrom_keeps [OF sendsFrom_pendingReviewBranch_any p] ca show ?thesis by simp
    next
      case True
      with went(2) have s: "andThen (closeOpenReviews w existing)
          (\<lambda>_. markClosed (Revision review)) sta = (r, st')" by simp
      have c: "sendsFrom [] (\<lambda>_. True) (\<lambda>_. True) (closeOpenReviews w existing)"
        unfolding closeOpenReviews_def
        by (rule sendsFrom_forEach) (auto intro: sendsFrom_close sendsFrom_ret)
      from s show ?thesis
      proof (cases rule: andThen_cases)
        case (died msg)
        from sendsFrom_keeps [OF c died(1)] ca show ?thesis by simp
      next
        case (went x stb)
        from sendsFrom_keeps [OF c went(1)] ca have "closedRevisionsMap stb revision" by simp
        with markClosed_run [OF went(2)] show ?thesis by simp
      qed
    qed
  qed
qed

lemma passes_keep:
  "forEach others (\<lambda>(rp, rv). EnsureRequestExists w rp rv) st = (r, st')
     \<Longrightarrow> closedRevisionsMap st revision \<Longrightarrow> closedRevisionsMap st' revision"
proof (induction others arbitrary: st)
  case Nil
  then show ?case by (simp add: ret_def)
next
  case (Cons o1 others)
  obtain rp rv where o1: "o1 = (rp, rv)" by (cases o1)
  from Cons.prems(1) have run: "andThen (EnsureRequestExists w rp rv)
      (\<lambda>_. forEach others (\<lambda>(rp, rv). EnsureRequestExists w rp rv)) st = (r, st')"
    by (simp add: o1)
  from run show ?case
  proof (cases rule: andThen_cases)
    case (died msg)
    from ensure_keeps [OF died(1) Cons.prems(2)] show ?thesis .
  next
    case (went x st1)
    from ensure_keeps [OF went(1) Cons.prems(2)] have "closedRevisionsMap st1 revision" .
    from Cons.IH [OF went(2) this] show ?thesis .
  qed
qed

text \<open>
  C2. A submitted review whose revision is not yet in the map of closed revisions: when
  \<open>EnsureRequestExists\<close> returns, it has sent the query and then one close call for each
  revision of the answer that is not closed, and nothing else, and the revision is in the
  map; after any further runs of \<open>EnsureRequestExists\<close> in the same process, a run for a
  review with this revision sends no call and changes nothing.
\<close>

theorem submitted_closed_once:
  assumes sub: "Submitted review"
    and fresh: "\<not> closedRevisionsMap st (Revision review)"
    and run: "EnsureRequestExists w repo review st = (Inr (), st1)"
    and later: "forEach others (\<lambda>(rp, rv). EnsureRequestExists w rp rv) st1 = (res, st2)"
    and same: "Revision review' = Revision review"
  shows "\<exists>existing.
           respond w (conduit st) (DifferentialQuery [[commitHashType, Revision review]] [])
             = QueryResponse existing
           \<and> newCalls st st1
               = DifferentialQuery [[commitHashType, Revision review]] [] # closeCallsFor existing
           \<and> list_all isClose (closeCallsFor existing)
           \<and> length (filter isClose (newCalls st st1))
               = length (filter (\<lambda>d. \<not> isClosed d) existing)
           \<and> closedRevisionsMap st1 (Revision review)
           \<and> closedRevisionsMap st2 (Revision review)
           \<and> EnsureRequestExists w repo' review' st2 = (Inr (), st2)"
proof -
  from submitted_run [OF sub fresh run] obtain existing where
    resp: "respond w (conduit st) (DifferentialQuery [[commitHashType, Revision review]] [])
             = QueryResponse existing"
    and calls: "conduit st1 = conduit st
               @ DifferentialQuery [[commitHashType, Revision review]] [] # closeCallsFor existing"
    and ids: "\<forall>d \<in> set existing. \<not> isClosed d \<longrightarrow> Atoi (ID d) \<noteq> None"
    and map1: "closedRevisionsMap st1 = (closedRevisionsMap st)(Revision review := True)"
    by (elim exE conjE)
  from calls have new: "newCalls st st1
      = DifferentialQuery [[commitHashType, Revision review]] [] # closeCallsFor existing"
    by (simp add: newCalls_def)
  note count = closeCallsFor_count [OF ids]
  from count have n: "length (filter isClose (newCalls st st1))
      = length (filter (\<lambda>d. \<not> isClosed d) existing)" unfolding new by simp
  from count have allc: "list_all isClose (closeCallsFor existing)" by (rule conjunct2)
  from map1 have c1: "closedRevisionsMap st1 (Revision review)" by simp
  from passes_keep [OF later c1] have c2: "closedRevisionsMap st2 (Revision review)" .
  with same have "closedRevisionsMap st2 (Revision review')" by simp
  then have again: "EnsureRequestExists w repo' review' st2 = (Inr (), st2)"
    by (rule ensure_cached)
  from resp new allc n c1 c2 again show ?thesis by (intro exI [of _ existing]) simp
qed


lemma submitted_example_run:
  "EnsureRequestExists (steadyWorld []) someRepo submittedReview start = (Inr (), afterClose)"
proof -
  have o: "\<not> isClosed openRevision"
    by (simp add: isClosed_def openRevision_def differentialClosedStatus_def
        differentialAbandonedStatus_def)
  have c: "isClosed closedRevision"
    by (simp add: isClosed_def closedRevision_def differentialClosedStatus_def)
  have i: "ID openRevision = ''7''" by (simp add: openRevision_def)
  have "(\<lambda>revision. False)(''R'' := True) = (\<lambda>revision. revision = ''R'')"
    by (simp add: fun_eq_iff)
  then show ?thesis
    by (simp add: EnsureRequestExists_eq submittedReview_def pendingReview_def start_def
        listDifferentialReviewsOrDie_def andThen_def runArcCommandOrDie_def steadyWorld_def
        steadyRespond_def ret_def closeOpenReviews_def o c close_def i Atoi_7 markClosed_def
        afterClose_def queryR_def commitHashType_def)
qed

theorem submitted_closed_once_witness:
  "Submitted submittedReview
   \<and> \<not> closedRevisionsMap start (Revision submittedReview)
   \<and> EnsureRequestExists (steadyWorld []) someRepo submittedReview start = (Inr (), afterClose)
   \<and> forEach [(someRepo, submittedReview)]
        (\<lambda>(rp, rv). EnsureRequestExists (steadyWorld []) rp rv) afterClose = (Inr (), afterClose)
   \<and> newCalls start afterClose = [queryR, DifferentialClose 7]
   \<and> closedRevisionsMap afterClose (Revision submittedReview)
   \<and> EnsureRequestExists (steadyWorld []) someRepo submittedReview afterClose
       = (Inr (), afterClose)"
proof -
  have sub: "Submitted submittedReview" by (simp add: submittedReview_def)
  have fresh: "\<not> closedRevisionsMap start (Revision submittedReview)"
    by (simp add: start_def)
  have cached: "closedRevisionsMap afterClose (Revision submittedReview)"
    by (simp add: afterClose_def submittedReview_def pendingReview_def)
  have later: "forEach [(someRepo, submittedReview)]
        (\<lambda>(rp, rv). EnsureRequestExists (steadyWorld []) rp rv) afterClose = (Inr (), afterClose)"
    by (simp add: andThen_def ret_def ensure_cached [OF cached])
  have new: "newCalls start afterClose = [queryR, DifferentialClose 7]"
    by (simp add: newCalls_def start_def afterClose_def)
  from submitted_closed_once [OF sub fresh submitted_example_run later refl,
      of someRepo]
  have "EnsureRequestExists (steadyWorld []) someRepo submittedReview afterClose
       = (Inr (), afterClose)" by (elim exE conjE)
  with sub fresh submitted_example_run later new cached show ?thesis by simp
qed

section \<open>Runs that repeat\<close>































section \<open>A second pass\<close>

lemma pending_pass:
  assumes "buildCommentRequests plainQuote openRevision ts rc [(''H'', ''1'')] = ([], [])"
  shows "EnsureRequestExists (steadyWorld rc) someRepo (pendingReview\<lparr>Comments := ts\<rparr>)
           (afterCalls cs)
         = (Inr (), afterCalls (cs @ queryR # mirroringCalls))"
proof -
  have o: "\<not> isClosed openRevision"
    by (simp add: isClosed_def openRevision_def differentialClosedStatus_def
        differentialAbandonedStatus_def)
  have c: "isClosed closedRevision"
    by (simp add: isClosed_def closedRevision_def differentialClosedStatus_def)
  have hh: "hasHeadHash (Hashes openRevision) ''H''"
    by (simp add: hasHeadHash_iff openRevision_def commitHashType_def)
  have m: "\<And>cs'. mirrorCommentsIntoReview (steadyWorld rc) someRepo openRevision
      (pendingReview\<lparr>Comments := ts\<rparr>) (afterCalls cs')
     = (Inr (), afterCalls (cs' @ mirroringCalls))"
    using assms
    by (simp add: mirrorCommentsIntoReview_def openRevision_def findCommitForDiff_def Atoi_1
      andThen_def runArcCommandOrDie_def steadyWorld_def steadyRespond_def ret_def
      mirrorStatusesForEachCommit_def someRepo_def reportUnitResults_def
      generateUnitDiffProperty_def passingReport_def setDiffProperty_def
      LoadCommentsOf_def pendingReview_def afterCalls_def start_def
      mirroringCalls_def unitDiffPropertyName_def)
  have u1: "\<And>cs'. updateReviewDiffs (steadyWorld rc) someRepo openRevision ''H'' someRequest
      (pendingReview\<lparr>Comments := ts\<rparr>) (afterCalls cs')
     = (Inr (), afterCalls (cs' @ mirroringCalls))"
  proof -
    fix cs'
    have "MergeBase someRepo (TargetRef someRequest) ''H'' = Inr ''B''"
      by (simp add: someRepo_def)
    with o hh show "updateReviewDiffs (steadyWorld rc) someRepo openRevision ''H'' someRequest
      (pendingReview\<lparr>Comments := ts\<rparr>) (afterCalls cs')
     = (Inr (), afterCalls (cs' @ mirroringCalls))"
      by (simp add: updateReviewDiffs_def m)
  qed
  have u2: "\<And>st. updateReviewDiffs (steadyWorld rc) someRepo closedRevision ''H'' someRequest
      (pendingReview\<lparr>Comments := ts\<rparr>) st = (Inr (), st)"
    using c by (simp add: updateReviewDiffs_def ret_def)
  have l: "listDifferentialReviewsOrDie (steadyWorld rc) ''R'' (afterCalls cs)
      = (Inr [openRevision, closedRevision], afterCalls (cs @ [queryR]))"
    by (simp add: listDifferentialReviewsOrDie_def andThen_def runArcCommandOrDie_def
        steadyWorld_def steadyRespond_def ret_def afterCalls_def queryR_def commitHashType_def)
  have p: "pendingReviewBranch (steadyWorld rc) someRepo (pendingReview\<lparr>Comments := ts\<rparr>)
      [openRevision, closedRevision] (afterCalls (cs @ [queryR]))
     = (Inr (), afterCalls (cs @ queryR # mirroringCalls))"
  proof -
    have gb: "GetBaseCommit (pendingReview\<lparr>Comments := ts\<rparr>) = Inr ''B''"
      and gh: "GetHeadCommit (pendingReview\<lparr>Comments := ts\<rparr>) = Inr ''H''"
      and rq: "Request (pendingReview\<lparr>Comments := ts\<rparr>) = someRequest"
      by (simp_all add: pendingReview_def)
    show ?thesis
      unfolding pendingReviewBranch_def gb gh rq
      by (simp add: andThen_def ret_def u1 u2)
  qed
  have n: "\<not> closedRevisionsMap (afterCalls cs) ''R''" by (simp add: afterCalls_def start_def)
  have r: "Revision (pendingReview\<lparr>Comments := ts\<rparr>) = ''R''"
    and s: "\<not> Submitted (pendingReview\<lparr>Comments := ts\<rparr>)"
    by (simp_all add: pendingReview_def)
  show ?thesis
    unfolding EnsureRequestExists_eq r using n s by (simp add: andThen_def l p)
qed

lemma pendingReview_Comments: "pendingReview\<lparr>Comments := []\<rparr> = pendingReview"
  by (simp add: pendingReview_def)

lemma plain_pass:
  "EnsureRequestExists (steadyWorld []) someRepo pendingReview (afterCalls cs)
     = (Inr (), afterCalls (cs @ queryR # mirroringCalls))"
proof -
  have "buildCommentRequests plainQuote openRevision [] [] [(''H'', ''1'')] = ([], [])"
    by (simp add: buildCommentRequests_def)
  from pending_pass [OF this, of cs] show ?thesis by (simp add: pendingReview_Comments)
qed



lemma pending_keeps_map:
  assumes notsub: "\<not> Submitted review"
    and run: "EnsureRequestExists w repo review st = (r, st')"
  shows "closedRevisionsMap st' = closedRevisionsMap st"
proof (cases "closedRevisionsMap st (Revision review)")
  case True
  with run have "st' = st" by (simp add: ensure_cached)
  then show ?thesis by simp
next
  case False
  have "sendsFrom [] (\<lambda>_. True) (\<lambda>_. True)
      (andThen (listDifferentialReviewsOrDie w (Revision review))
         (\<lambda>existingReviews. pendingReviewBranch w repo review existingReviews))"
    by (rule sendsFrom_andThen [OF sendsFrom_listDifferentialReviewsOrDie])
       (simp_all add: sendsFrom_pendingReviewBranch_any)
  moreover from run False notsub have
    "andThen (listDifferentialReviewsOrDie w (Revision review))
       (\<lambda>existingReviews. pendingReviewBranch w repo review existingReviews) st = (r, st')"
    by (simp add: EnsureRequestExists_eq)
  ultimately show ?thesis by (rule sendsFrom_keeps)
qed



section \<open>A second pass after the first one has updated the revision\<close>

lemma Atoi_2: "Atoi ''2'' = Some 2"
  by (simp add: Atoi_def digitVal_def)

lemma Itoa_2: "Itoa 2 = ''2''"
  by (simp add: Itoa_def char_of_def bit_0)

lemma reflecting_first_pass:
  "EnsureRequestExists reflectingWorld someRepo commentedReview (afterCalls [])
     = (Inr (), afterCalls firstPassCalls)"
proof -
  have o: "\<not> isClosed staleRevision"
    by (simp add: isClosed_def staleRevision_def openRevision_def differentialClosedStatus_def
        differentialAbandonedStatus_def)
  have hh: "\<not> hasHeadHash (Hashes staleRevision) ''H''"
    by (simp add: hasHeadHash_iff staleRevision_def openRevision_def commitHashType_def)
  have mb: "MergeBase someRepo (TargetRef someRequest) ''H'' = Inr ''B''"
    by (simp add: someRepo_def)
  have d: "Diffs staleRevision = [''1'']" and i: "ID staleRevision = ''7''"
    by (simp_all add: staleRevision_def openRevision_def)
  have u: "updateReviewDiffs reflectingWorld someRepo staleRevision ''H'' someRequest
      commentedReview (afterCalls [queryR])
     = (Inr (), afterCalls firstPassCalls)"
    using o hh
    by (simp add: updateReviewDiffs_def mb d i createDifferentialDiff_def andThen_def
        runArcCommandOrDie_def reflectingWorld_def reflectingRespond_def ret_def Itoa_2
        afterCalls_def start_def firstPassCalls_def)
  have l: "listDifferentialReviewsOrDie reflectingWorld ''R'' (afterCalls [])
      = (Inr [staleRevision], afterCalls [queryR])"
    by (simp add: listDifferentialReviewsOrDie_def andThen_def runArcCommandOrDie_def
        reflectingWorld_def reflectingRespond_def ret_def afterCalls_def start_def queryR_def
        commitHashType_def)
  have gb: "GetBaseCommit commentedReview = Inr ''B''"
    and gh: "GetHeadCommit commentedReview = Inr ''H''"
    and rq: "Request commentedReview = someRequest"
    and r: "Revision commentedReview = ''R''"
    and s: "\<not> Submitted commentedReview"
    by (simp_all add: commentedReview_def pendingReview_def)
  have p: "pendingReviewBranch reflectingWorld someRepo commentedReview [staleRevision]
      (afterCalls [queryR]) = (Inr (), afterCalls firstPassCalls)"
    unfolding pendingReviewBranch_def gb gh rq by (simp add: andThen_def ret_def u)
  have n: "\<not> closedRevisionsMap (afterCalls []) ''R''" by (simp add: afterCalls_def start_def)
  show ?thesis unfolding EnsureRequestExists_eq r using n s by (simp add: andThen_def l p)
qed

lemma reflecting_second_pass:
  "EnsureRequestExists reflectingWorld someRepo commentedReview (afterCalls firstPassCalls)
     = (Inr (), afterCalls (firstPassCalls @ secondPassCalls))"
proof -
  have o: "\<not> isClosed updatedRevision"
    by (simp add: isClosed_def updatedRevision_def openRevision_def differentialClosedStatus_def
        differentialAbandonedStatus_def)
  have hh: "hasHeadHash (Hashes updatedRevision) ''H''"
    by (simp add: hasHeadHash_iff updatedRevision_def openRevision_def commitHashType_def)
  have mb: "MergeBase someRepo (TargetRef someRequest) ''H'' = Inr ''B''"
    by (simp add: someRepo_def)
  have d: "Diffs updatedRevision = [''1'', ''2'']" and i: "ID updatedRevision = ''7''"
    by (simp_all add: updatedRevision_def openRevision_def)
  have c: "Comments commentedReview = [fileThread, wholeReviewThread]"
    by (simp add: commentedReview_def)
  have b: "buildCommentRequests plainQuote updatedRevision [fileThread, wholeReviewThread] []
      [(''R'', ''1''), (''H'', ''2'')]
     = ([inlineFor fileComment, inlineFor replyComment],
        [\<lparr> cc_RevisionID = ''7'', cc_Message = [], cc_Action = ''comment'',
            cc_AttachInlines = True \<rparr>])"
    by (simp add: buildCommentRequests_def inlineRequestsFor_def lookupDiff_def Let_def
      wholeReviewThread_def fileThread_def wholeReviewComment_def fileComment_def
      replyComment_def i inlineFor_def)
  have m: "mirrorCommentsIntoReview reflectingWorld someRepo updatedRevision commentedReview
      (afterCalls (firstPassCalls @ [queryR]))
     = (Inr (), afterCalls (firstPassCalls @ secondPassCalls))"
    by (simp add: mirrorCommentsIntoReview_def d i c findCommitForDiff_def Atoi_1 Atoi_2
      andThen_def runArcCommandOrDie_def reflectingWorld_def reflectingRespond_def ret_def
      mirrorStatusesForEachCommit_def someRepo_def reportUnitResults_def
      generateUnitDiffProperty_def passingReport_def setDiffProperty_def
      LoadCommentsOf_def b afterCalls_def start_def
      secondPassCalls_def unitDiffPropertyName_def)
  have u: "updateReviewDiffs reflectingWorld someRepo updatedRevision ''H'' someRequest
      commentedReview (afterCalls (firstPassCalls @ [queryR]))
     = (Inr (), afterCalls (firstPassCalls @ secondPassCalls))"
    using o hh by (simp add: updateReviewDiffs_def mb m)
  have l: "listDifferentialReviewsOrDie reflectingWorld ''R'' (afterCalls firstPassCalls)
      = (Inr [updatedRevision], afterCalls (firstPassCalls @ [queryR]))"
    by (simp add: listDifferentialReviewsOrDie_def andThen_def runArcCommandOrDie_def
        reflectingWorld_def reflectingRespond_def ret_def afterCalls_def start_def queryR_def
        commitHashType_def firstPassCalls_def)
  have gb: "GetBaseCommit commentedReview = Inr ''B''"
    and gh: "GetHeadCommit commentedReview = Inr ''H''"
    and rq: "Request commentedReview = someRequest"
    and r: "Revision commentedReview = ''R''"
    and s: "\<not> Submitted commentedReview"
    by (simp_all add: commentedReview_def pendingReview_def)
  have p: "pendingReviewBranch reflectingWorld someRepo commentedReview [updatedRevision]
      (afterCalls (firstPassCalls @ [queryR]))
     = (Inr (), afterCalls (firstPassCalls @ secondPassCalls))"
    unfolding pendingReviewBranch_def gb gh rq by (simp add: andThen_def ret_def u)
  have n: "\<not> closedRevisionsMap (afterCalls firstPassCalls) ''R''"
    by (simp add: afterCalls_def start_def)
  show ?thesis unfolding EnsureRequestExists_eq r using n s by (simp add: andThen_def l p)
qed

text \<open>
  Against a remote side that reflects what was sent to it, the first pass creates a diff
  and updates the revision and does not mirror; the second pass, with the review unchanged,
  then sets the properties of the diffs and posts the comments of the thread on the file.
\<close>

lemma second_pass_after_update:
  "EnsureRequestExists reflectingWorld someRepo commentedReview (afterCalls [])
     = (Inr (), afterCalls firstPassCalls)
   \<and> EnsureRequestExists reflectingWorld someRepo commentedReview (afterCalls firstPassCalls)
     = (Inr (), afterCalls (firstPassCalls @ secondPassCalls))
   \<and> filter isMutation (newCalls (afterCalls []) (afterCalls ([] @ firstPassCalls)))
     = [CreateDifferentialDiff ''B'' ''H'' [''1''], DifferentialUpdateRevision ''7'' ''2'']
   \<and> filter isMutation
        (newCalls (afterCalls firstPassCalls) (afterCalls (firstPassCalls @ secondPassCalls)))
     = [SetDiffProperty 1 ''arc:unit'' ''[unit]'', SetDiffProperty 2 ''arc:unit'' ''[unit]'',
        DifferentialCreateInline (inlineFor fileComment),
        DifferentialCreateInline (inlineFor replyComment),
        DifferentialCreateComment \<lparr> cc_RevisionID = ''7'', cc_Message = [],
          cc_Action = ''comment'', cc_AttachInlines = True \<rparr>]"
proof -
  have a: "filter isMutation firstPassCalls
     = [CreateDifferentialDiff ''B'' ''H'' [''1''], DifferentialUpdateRevision ''7'' ''2'']"
    by (simp add: firstPassCalls_def queryR_def)
  have b: "filter isMutation secondPassCalls
     = [SetDiffProperty 1 ''arc:unit'' ''[unit]'', SetDiffProperty 2 ''arc:unit'' ''[unit]'',
        DifferentialCreateInline (inlineFor fileComment),
        DifferentialCreateInline (inlineFor replyComment),
        DifferentialCreateComment \<lparr> cc_RevisionID = ''7'', cc_Message = [],
          cc_Action = ''comment'', cc_AttachInlines = True \<rparr>]"
    by (simp add: secondPassCalls_def queryR_def)
  from reflecting_first_pass reflecting_second_pass a b show ?thesis
    unfolding newCalls_afterCalls by simp
qed

section \<open>A pass over a review whose revision holds the head\<close>

text \<open>
  The calls of a loop fall into one segment for each element that the loop reached: the
  segment of an element holds the calls that the body sent for it.
\<close>

lemma forEach_segments:
  assumes body: "\<forall>x \<in> set xs. sendsFrom [] (P x) (\<lambda>_. True) (body x)"
    and run: "forEach xs body st = (r, st')"
  shows "\<exists>segments. conduit st' = conduit st @ concat segments
           \<and> length segments \<le> length xs
           \<and> (\<forall>i < length segments.
                 list_all (P (xs ! i)) (segments ! i)
                 \<and> (\<exists>s r' s'. body (xs ! i) s = (r', s')
                       \<and> conduit s = conduit st @ concat (take i segments)
                       \<and> conduit s' = conduit s @ segments ! i))
           \<and> closedRevisionsMap st' = closedRevisionsMap st"
  using body run
proof (induction xs arbitrary: st)
  case Nil
  then have "st' = st" by (simp add: ret_def)
  then have "conduit st' = conduit st @ concat []
           \<and> length ([] :: call list list) \<le> length ([] :: 'a list)
           \<and> (\<forall>i < length ([] :: call list list).
                 list_all (P ([] ! i)) ([] ! i)
                 \<and> (\<exists>s r' s'. body ([] ! i) s = (r', s')
                       \<and> conduit s = conduit st @ concat (take i [])
                       \<and> conduit s' = conduit s @ [] ! i))
           \<and> closedRevisionsMap st' = closedRevisionsMap st" by simp
  then show ?case by (rule exI)
next
  case (Cons x xs)
  from Cons.prems(1) have bx: "sendsFrom [] (P x) (\<lambda>_. True) (body x)" by simp
  have pre: "prefix [] (conduit st)" by simp
  from Cons.prems(2) have run: "andThen (body x) (\<lambda>_. forEach xs body) st = (r, st')" by simp
  from run show ?case
  proof (cases rule: andThen_cases)
    case (died msg)
    note d = sendsFromD [OF bx pre died(1)]
    from d have k: "closedRevisionsMap st' = closedRevisionsMap st" by (rule conjunct1)
    from d obtain cs where c: "conduit st' = conduit st @ cs" and p: "list_all (P x) cs"
      by (elim conjE exE)
    from died(1) c have "body x st = (Inl msg, st')
        \<and> conduit st = conduit st @ concat (take 0 [cs])
        \<and> conduit st' = conduit st @ [cs] ! 0" by simp
    then have "\<exists>s r' s'. body x s = (r', s')
        \<and> conduit s = conduit st @ concat (take 0 [cs])
        \<and> conduit s' = conduit s @ [cs] ! 0" by (intro exI)
    with c p k have "conduit st' = conduit st @ concat [cs]
           \<and> length [cs] \<le> length (x # xs)
           \<and> (\<forall>i < length [cs].
                 list_all (P ((x # xs) ! i)) ([cs] ! i)
                 \<and> (\<exists>s r' s'. body ((x # xs) ! i) s = (r', s')
                       \<and> conduit s = conduit st @ concat (take i [cs])
                       \<and> conduit s' = conduit s @ [cs] ! i))
           \<and> closedRevisionsMap st' = closedRevisionsMap st" by simp
    then show ?thesis by (rule exI)
  next
    case (went u st1)
    note d = sendsFromD [OF bx pre went(1)]
    from d have k: "closedRevisionsMap st1 = closedRevisionsMap st" by (rule conjunct1)
    from d obtain cs where c: "conduit st1 = conduit st @ cs" and p: "list_all (P x) cs"
      by (elim conjE exE)
    from Cons.prems(1) have "\<forall>y \<in> set xs. sendsFrom [] (P y) (\<lambda>_. True) (body y)"
      by simp
    from Cons.IH [OF this went(2)] obtain segs where
      c2: "conduit st' = conduit st1 @ concat segs"
      and l2: "length segs \<le> length xs"
      and p2: "\<forall>i < length segs.
                 list_all (P (xs ! i)) (segs ! i)
                 \<and> (\<exists>s r' s'. body (xs ! i) s = (r', s')
                       \<and> conduit s = conduit st1 @ concat (take i segs)
                       \<and> conduit s' = conduit s @ segs ! i)"
      and k2: "closedRevisionsMap st' = closedRevisionsMap st1" by (elim exE conjE)
    have p3: "\<forall>i < length (cs # segs).
                 list_all (P ((x # xs) ! i)) ((cs # segs) ! i)
                 \<and> (\<exists>s r' s'. body ((x # xs) ! i) s = (r', s')
                       \<and> conduit s = conduit st @ concat (take i (cs # segs))
                       \<and> conduit s' = conduit s @ (cs # segs) ! i)"
    proof (intro allI impI)
      fix i
      assume i: "i < length (cs # segs)"
      show "list_all (P ((x # xs) ! i)) ((cs # segs) ! i)
                 \<and> (\<exists>s r' s'. body ((x # xs) ! i) s = (r', s')
                       \<and> conduit s = conduit st @ concat (take i (cs # segs))
                       \<and> conduit s' = conduit s @ (cs # segs) ! i)"
      proof (cases i)
        case 0
        from went(1) c have "body x st = (Inr u, st1)
            \<and> conduit st = conduit st @ concat (take 0 (cs # segs))
            \<and> conduit st1 = conduit st @ (cs # segs) ! 0" by simp
        then have "\<exists>s r' s'. body x s = (r', s')
            \<and> conduit s = conduit st @ concat (take 0 (cs # segs))
            \<and> conduit s' = conduit s @ (cs # segs) ! 0" by (intro exI)
        with p 0 show ?thesis by simp
      next
        case (Suc j)
        with i have j: "j < length segs" by simp
        from p2 j have pj: "list_all (P (xs ! j)) (segs ! j)" by simp
        from p2 j obtain s r' s' where b: "body (xs ! j) s = (r', s')"
          and s: "conduit s = conduit st1 @ concat (take j segs)"
          and s': "conduit s' = conduit s @ segs ! j" by blast
        from b s s' c have "body (xs ! j) s = (r', s')
            \<and> conduit s = conduit st @ concat (take (Suc j) (cs # segs))
            \<and> conduit s' = conduit s @ (cs # segs) ! Suc j" by simp
        then have "\<exists>s r' s'. body (xs ! j) s = (r', s')
            \<and> conduit s = conduit st @ concat (take (Suc j) (cs # segs))
            \<and> conduit s' = conduit s @ (cs # segs) ! Suc j" by (intro exI)
        with pj Suc show ?thesis by simp
      qed
    qed
    from c c2 l2 k k2 have "conduit st' = conduit st @ concat (cs # segs)
           \<and> length (cs # segs) \<le> length (x # xs)
           \<and> closedRevisionsMap st' = closedRevisionsMap st" by simp
    with p3 have "conduit st' = conduit st @ concat (cs # segs)
           \<and> length (cs # segs) \<le> length (x # xs)
           \<and> (\<forall>i < length (cs # segs).
                 list_all (P ((x # xs) ! i)) ((cs # segs) ! i)
                 \<and> (\<exists>s r' s'. body ((x # xs) ! i) s = (r', s')
                       \<and> conduit s = conduit st @ concat (take i (cs # segs))
                       \<and> conduit s' = conduit s @ (cs # segs) ! i))
           \<and> closedRevisionsMap st' = closedRevisionsMap st" by simp
    then show ?thesis by (rule exI)
  qed
qed

lemma updateReviewDiffs_segment:
  "sendsFrom [] (\<lambda>c. [commitHashType, headCommit] \<in> set (Hashes d) \<longrightarrow> isMirroring c)
     (\<lambda>_. True) (updateReviewDiffs w repo d headCommit req r)"
proof (cases "[commitHashType, headCommit] \<in> set (Hashes d)")
  case True
  then have "hasHeadHash (Hashes d) headCommit" by (simp add: hasHeadHash_iff)
  then have "sendsFrom [] isMirroring (\<lambda>_. True) (updateReviewDiffs w repo d headCommit req r)"
    by (intro sendsFrom_updateReviewDiffs_head) simp_all
  with True show ?thesis by simp
next
  case False
  with sendsFrom_updateReviewDiffs_any [of "[]" w repo d headCommit req r]
  show ?thesis by simp
qed

text \<open>
  C8, as amended. A review that is not submitted, with a head commit, for which the remote
  side reports at least one revision. The calls of a pass of \<open>EnsureRequestExists\<close> are the
  query followed by one segment of calls for each reported revision that the pass reached,
  in their order, the segment of a revision being the calls that \<open>updateReviewDiffs\<close> sent
  for it (no call at all when the revision of the review is in the map of closed
  revisions). The segment of a revision whose hashes hold the head commit has only calls of
  report and comment mirroring, so no call in it creates a diff or creates, updates or
  closes a revision; and for such a revision that is not closed, once the merge base is
  found, what runs is the mirroring of reports and comments.
\<close>

theorem pending_head_unchanged_only_mirroring:
  assumes notsub: "\<not> Submitted review"
    and head: "GetHeadCommit review = Inr headCommit"
    and answer: "respond w (conduit st)
                   (DifferentialQuery [[commitHashType, Revision review]] [])
                 = QueryResponse existing"
    and some: "existing \<noteq> []"
    and run: "EnsureRequestExists w repo review st = (res, st')"
  shows "\<exists>segments.
           conduit st' = conduit st @ newCalls st st'
           \<and> newCalls st st'
               = (if closedRevisionsMap st (Revision review) then []
                  else DifferentialQuery [[commitHashType, Revision review]] []
                       # concat segments)
           \<and> length segments \<le> length existing
           \<and> (\<forall>i < length segments.
                 (\<exists>s r s'. updateReviewDiffs w repo (existing ! i) headCommit
                               (Request review) review s = (r, s')
                     \<and> conduit s = conduit st
                         @ DifferentialQuery [[commitHashType, Revision review]] []
                         # concat (take i segments)
                     \<and> conduit s' = conduit s @ segments ! i)
                 \<and> ([commitHashType, headCommit] \<in> set (Hashes (existing ! i))
                   \<longrightarrow> list_all isMirroring (segments ! i)
                       \<and> list_all (\<lambda>c. \<not> touchesRevision c) (segments ! i)))
           \<and> (\<forall>d \<in> set existing.
                 [commitHashType, headCommit] \<in> set (Hashes d) \<longrightarrow> \<not> isClosed d
                   \<longrightarrow> (\<forall>mergeBase.
                         MergeBase repo (TargetRef (Request review)) headCommit = Inr mergeBase
                         \<longrightarrow> updateReviewDiffs w repo d headCommit (Request review) review
                             = mirrorCommentsIntoReview w repo d review))
           \<and> closedRevisionsMap st' = closedRevisionsMap st"
proof -
  let ?q = "DifferentialQuery [[commitHashType, Revision review]] []"
  let ?H = "\<lambda>d. [commitHashType, headCommit] \<in> set (Hashes d)"
  let ?body = "\<lambda>d. updateReviewDiffs w repo d headCommit (Request review) review"
  let ?seg = "\<lambda>segments i.
      (\<exists>s r s'. ?body (existing ! i) s = (r, s')
          \<and> conduit s = conduit st @ ?q # concat (take i segments)
          \<and> conduit s' = conduit s @ segments ! i)
      \<and> (?H (existing ! i)
            \<longrightarrow> list_all isMirroring (segments ! i)
                \<and> list_all (\<lambda>c. \<not> touchesRevision c) (segments ! i))"
  have mirrors: "\<forall>d \<in> set existing. ?H d \<longrightarrow> \<not> isClosed d
      \<longrightarrow> (\<forall>mergeBase. MergeBase repo (TargetRef (Request review)) headCommit = Inr mergeBase
            \<longrightarrow> ?body d = mirrorCommentsIntoReview w repo d review)"
    by (simp add: updateReviewDiffs_def hasHeadHash_iff)
  have k: "closedRevisionsMap st' = closedRevisionsMap st"
    by (rule pending_keeps_map [OF notsub run])
  show ?thesis
  proof (cases "closedRevisionsMap st (Revision review)")
    case True
    with run have "st' = st" by (simp add: ensure_cached)
    with True have "conduit st' = conduit st @ newCalls st st'
        \<and> newCalls st st' = (if closedRevisionsMap st (Revision review) then []
                             else ?q # concat [])
        \<and> length ([] :: call list list) \<le> length existing
        \<and> (\<forall>i < length ([] :: call list list). ?seg [] i)"
      by (simp add: newCalls_def)
    with mirrors k show ?thesis by (intro exI [of _ "[]"] conjI) simp_all
  next
    case False
    from run False notsub have run': "andThen (listDifferentialReviewsOrDie w (Revision review))
        (\<lambda>existingReviews. pendingReviewBranch w repo review existingReviews) st = (res, st')"
      by (simp add: EnsureRequestExists_eq)
    have l: "listDifferentialReviewsOrDie w (Revision review) st
        = (Inr existing, st\<lparr>conduit := conduit st @ [?q]\<rparr>)"
      by (simp add: listDifferentialReviewsOrDie_def andThen_def runArcCommandOrDie_def
          answer ret_def)
    from run' l have p: "pendingReviewBranch w repo review existing
        (st\<lparr>conduit := conduit st @ [?q]\<rparr>) = (res, st')"
      by (simp add: andThen_def)
    have "\<exists>segments. conduit st' = (conduit st @ [?q]) @ concat segments
           \<and> length segments \<le> length existing
           \<and> (\<forall>i < length segments.
                 list_all (\<lambda>c. ?H (existing ! i) \<longrightarrow> isMirroring c) (segments ! i)
                 \<and> (\<exists>s r s'. ?body (existing ! i) s = (r, s')
                       \<and> conduit s = (conduit st @ [?q]) @ concat (take i segments)
                       \<and> conduit s' = conduit s @ segments ! i))"
    proof (cases "GetBaseCommit review")
      case (Inl err)
      with p have "st' = st\<lparr>conduit := conduit st @ [?q]\<rparr>"
        by (simp add: pendingReviewBranch_def ret_def)
      then have "conduit st' = (conduit st @ [?q]) @ concat []
           \<and> length ([] :: call list list) \<le> length existing
           \<and> (\<forall>i < length ([] :: call list list).
                 list_all (\<lambda>c. ?H (existing ! i) \<longrightarrow> isMirroring c) ([] ! i)
                 \<and> (\<exists>s r s'. ?body (existing ! i) s = (r, s')
                       \<and> conduit s = (conduit st @ [?q]) @ concat (take i [])
                       \<and> conduit s' = conduit s @ [] ! i))" by simp
      then show ?thesis by (rule exI)
    next
      case (Inr base)
      with p head some have loop: "forEach existing ?body
          (st\<lparr>conduit := conduit st @ [?q]\<rparr>) = (res, st')"
        by (simp add: pendingReviewBranch_def)
      have "\<forall>d \<in> set existing. sendsFrom [] (\<lambda>c. ?H d \<longrightarrow> isMirroring c) (\<lambda>_. True)
          (?body d)"
        by (simp add: updateReviewDiffs_segment)
      from forEach_segments [of existing "\<lambda>d c. ?H d \<longrightarrow> isMirroring c" ?body, OF this loop]
      obtain segments where
        c: "conduit st' = conduit (st\<lparr>conduit := conduit st @ [?q]\<rparr>) @ concat segments"
        and n: "length segments \<le> length existing"
        and a: "\<forall>i < length segments.
                 list_all (\<lambda>c. ?H (existing ! i) \<longrightarrow> isMirroring c) (segments ! i)
                 \<and> (\<exists>s r s'. ?body (existing ! i) s = (r, s')
                       \<and> conduit s = conduit (st\<lparr>conduit := conduit st @ [?q]\<rparr>)
                                       @ concat (take i segments)
                       \<and> conduit s' = conduit s @ segments ! i)"
        by (elim exE conjE)
      from c n a have "conduit st' = (conduit st @ [?q]) @ concat segments
           \<and> length segments \<le> length existing
           \<and> (\<forall>i < length segments.
                 list_all (\<lambda>c. ?H (existing ! i) \<longrightarrow> isMirroring c) (segments ! i)
                 \<and> (\<exists>s r s'. ?body (existing ! i) s = (r, s')
                       \<and> conduit s = (conduit st @ [?q]) @ concat (take i segments)
                       \<and> conduit s' = conduit s @ segments ! i))" by simp
      then show ?thesis by (rule exI)
    qed
    then obtain segments where
      c: "conduit st' = (conduit st @ [?q]) @ concat segments"
      and n: "length segments \<le> length existing"
      and a: "\<forall>i < length segments.
                 list_all (\<lambda>c. ?H (existing ! i) \<longrightarrow> isMirroring c) (segments ! i)
                 \<and> (\<exists>s r s'. ?body (existing ! i) s = (r, s')
                       \<and> conduit s = (conduit st @ [?q]) @ concat (take i segments)
                       \<and> conduit s' = conduit s @ segments ! i)"
      by (elim exE conjE)
    from c have new: "newCalls st st' = ?q # concat segments" by (simp add: newCalls_def)
    from c new have ext: "conduit st' = conduit st @ newCalls st st'" by simp
    have seg: "\<forall>i < length segments. ?seg segments i"
    proof (intro allI impI)
      fix i
      assume i: "i < length segments"
      from a i have al: "list_all (\<lambda>c. ?H (existing ! i) \<longrightarrow> isMirroring c) (segments ! i)"
        and ex: "\<exists>s r s'. ?body (existing ! i) s = (r, s')
                       \<and> conduit s = (conduit st @ [?q]) @ concat (take i segments)
                       \<and> conduit s' = conduit s @ segments ! i"
        by simp_all
      from ex have ex': "\<exists>s r s'. ?body (existing ! i) s = (r, s')
                       \<and> conduit s = conduit st @ ?q # concat (take i segments)
                       \<and> conduit s' = conduit s @ segments ! i" by simp
      have "?H (existing ! i) \<longrightarrow> list_all isMirroring (segments ! i)
            \<and> list_all (\<lambda>c. \<not> touchesRevision c) (segments ! i)"
      proof
        assume h: "?H (existing ! i)"
        with al have m: "list_all isMirroring (segments ! i)" by (simp add: list_all_iff)
        then have "list_all (\<lambda>c. \<not> touchesRevision c) (segments ! i)"
          by (simp add: list_all_iff isMirroring_not_touches)
        with m show "list_all isMirroring (segments ! i)
            \<and> list_all (\<lambda>c. \<not> touchesRevision c) (segments ! i)" by simp
      qed
      with ex' show "?seg segments i" by (rule conjI)
    qed
    from new False have new': "newCalls st st'
        = (if closedRevisionsMap st (Revision review) then [] else ?q # concat segments)"
      by simp
    from ext new' n seg mirrors k show ?thesis by (intro exI [of _ segments] conjI)
  qed
qed

theorem pending_head_unchanged_only_mirroring_witness:
  "\<not> Submitted pendingReview
   \<and> GetHeadCommit pendingReview = Inr ''H''
   \<and> respond (steadyWorld []) (conduit (afterCalls []))
        (DifferentialQuery [[commitHashType, Revision pendingReview]] [])
     = QueryResponse [openRevision, closedRevision]
   \<and> [commitHashType, ''H''] \<in> set (Hashes openRevision)
   \<and> EnsureRequestExists (steadyWorld []) someRepo pendingReview (afterCalls [])
     = (Inr (), afterCalls ([] @ queryR # mirroringCalls))
   \<and> newCalls (afterCalls []) (afterCalls ([] @ queryR # mirroringCalls))
     = queryR # concat [mirroringCalls, []]
   \<and> list_all isMirroring mirroringCalls
   \<and> list_all (\<lambda>c. \<not> touchesRevision c) mirroringCalls
   \<and> updateReviewDiffs (steadyWorld []) someRepo openRevision ''H'' (Request pendingReview)
        pendingReview
     = mirrorCommentsIntoReview (steadyWorld []) someRepo openRevision pendingReview"
proof -
  have notsub: "\<not> Submitted pendingReview" by (simp add: pendingReview_def)
  have head: "GetHeadCommit pendingReview = Inr ''H''" by (simp add: pendingReview_def)
  have answer: "respond (steadyWorld []) (conduit (afterCalls []))
        (DifferentialQuery [[commitHashType, Revision pendingReview]] [])
     = QueryResponse [openRevision, closedRevision]"
    by (simp add: steadyWorld_def steadyRespond_def)
  have some: "[openRevision, closedRevision] \<noteq> []" by simp
  have holds: "[commitHashType, ''H''] \<in> set (Hashes openRevision)"
    by (simp add: openRevision_def commitHashType_def)
  have "open": "\<not> isClosed openRevision"
    by (simp add: isClosed_def openRevision_def differentialClosedStatus_def
        differentialAbandonedStatus_def)
  have mb: "MergeBase someRepo (TargetRef (Request pendingReview)) ''H'' = Inr ''B''"
    by (simp add: someRepo_def)
  note run = plain_pass [of "[]"]
  from pending_head_unchanged_only_mirroring [OF notsub head answer some run]
  have "\<forall>d \<in> set [openRevision, closedRevision].
          [commitHashType, ''H''] \<in> set (Hashes d) \<longrightarrow> \<not> isClosed d
            \<longrightarrow> (\<forall>mergeBase.
                  MergeBase someRepo (TargetRef (Request pendingReview)) ''H'' = Inr mergeBase
                  \<longrightarrow> updateReviewDiffs (steadyWorld []) someRepo d ''H'' (Request pendingReview)
                        pendingReview
                      = mirrorCommentsIntoReview (steadyWorld []) someRepo d pendingReview)"
    by (elim exE conjE)
  with holds "open" mb have same: "updateReviewDiffs (steadyWorld []) someRepo openRevision ''H''
        (Request pendingReview) pendingReview
     = mirrorCommentsIntoReview (steadyWorld []) someRepo openRevision pendingReview"
    by simp
  have new: "newCalls (afterCalls []) (afterCalls ([] @ queryR # mirroringCalls))
     = queryR # concat [mirroringCalls, []]"
    using newCalls_afterCalls [of "[]" "queryR # mirroringCalls"] by simp
  have m: "list_all isMirroring mirroringCalls" by (simp add: mirroringCalls_def)
  have t: "list_all (\<lambda>c. \<not> touchesRevision c) mirroringCalls" by (simp add: mirroringCalls_def)
  from notsub head answer holds run new m t same show ?thesis by (intro conjI)
qed

text \<open>
  C8 as stated fails for a submitted review: the open revision holds the head commit, and
  the pass closes it.
\<close>

theorem head_unchanged_counterexample:
  "Submitted submittedReview
   \<and> GetHeadCommit submittedReview = Inr ''H''
   \<and> respond (steadyWorld []) (conduit start)
        (DifferentialQuery [[commitHashType, Revision submittedReview]] [])
     = QueryResponse [openRevision, closedRevision]
   \<and> [commitHashType, ''H''] \<in> set (Hashes openRevision)
   \<and> ID openRevision = ''7''
   \<and> EnsureRequestExists (steadyWorld []) someRepo submittedReview start = (Inr (), afterClose)
   \<and> newCalls start afterClose = [queryR, DifferentialClose 7]
   \<and> touchesRevision (DifferentialClose 7)
   \<and> \<not> isMirroring (DifferentialClose 7)"
proof -
  have "Submitted submittedReview" and "GetHeadCommit submittedReview = Inr ''H''"
    by (simp_all add: submittedReview_def pendingReview_def)
  moreover have "respond (steadyWorld []) (conduit start)
        (DifferentialQuery [[commitHashType, Revision submittedReview]] [])
     = QueryResponse [openRevision, closedRevision]"
    by (simp add: steadyWorld_def steadyRespond_def)
  moreover have "[commitHashType, ''H''] \<in> set (Hashes openRevision)"
    and "ID openRevision = ''7''"
    by (simp_all add: openRevision_def commitHashType_def)
  moreover have "newCalls start afterClose = [queryR, DifferentialClose 7]"
    by (simp add: newCalls_def start_def afterClose_def)
  ultimately show ?thesis using submitted_example_run by simp
qed

section \<open>The test of the review package against the wording of the spec\<close>

text \<open>
  With \<open>Overlaps\<close> as the spec words it, a quoted comment whose timestamp differs from the
  original's does not overlap it, whatever the quoting function is. On the data of
  \<open>TestFilterOverlapping\<close> the filter as the spec words it keeps four comments, where the
  test expects two (the reply and the misquoted reject); and the two comments of
  \<open>TestOverlaps\<close>, which the test expects to overlap, do not. The implementation that the
  test exercises is not among the sources.
\<close>

lemma spec_wording_on_test_data:
  "FilterOverlapping quote (testThreads quote) testExisting
     = [testQuotedComment quote, testReplyComment, testQuotedReject quote,
        testMisQuotedReject quote]
   \<and> \<not> Overlaps quote (testOriginalComment\<lparr>Resolved := None\<rparr>)
          (testQuotedComment quote)"
  by (simp add: FilterOverlapping_def testThreads_def testExisting_def Overlaps_def
      sameResolved_def testOriginalComment_def testQuotedComment_def testReplyComment_def
      testOriginalReject_def testQuotedReject_def testMisQuotedReject_def)

end
